theory Spec2Isabelle
  imports Complex_Main "HOL-Library.Word" "HOL-Library.Multiset" "HOL-Library.Log_Nat"
begin

section \<open>Data model (helper.go, main.go and the wire types they use)\<close>

text \<open>
  Go's \<^verbatim>\<open>int64\<close> is a 64-bit word read as two's complement: \<open>+\<close> and \<open>-\<close> wrap,
  comparisons are the signed ones (\<open><s\<close>, \<open>\<le>s\<close>). Go's \<^verbatim>\<open>int\<close> is taken at its
  64-bit width. A byte slice is a list of bytes; a nil slice and an empty slice are
  both the empty list (they have the same length and the same serialisation).
\<close>

type_synonym int64 = "64 word"
type_synonym go_int = "64 word"
type_synonym uint32 = "32 word"
type_synonym int32 = "32 word"
type_synonym bytes = "8 word list"

record wire_OutPoint =
  Hash :: bytes
  Index :: uint32

record UTXO =
  OutPoint :: wire_OutPoint
  Value :: int64
  PkScript :: bytes

record wire_TxIn =
  PreviousOutPoint :: wire_OutPoint
  SignatureScript :: bytes
  Witness :: "bytes list"
  Sequence :: uint32

record wire_TxOut =
  TxOut_Value :: int64
  TxOut_PkScript :: bytes

record wire_MsgTx =
  Version :: int32
  TxIn :: "wire_TxIn list"
  TxOut :: "wire_TxOut list"
  LockTime :: uint32

record Wallet =
  privateKey :: bytes
  address :: string

text \<open>
  The errors of the pipeline, one constructor per place that raises. \<open>NoChangeToSend\<close> is
  \<^verbatim>\<open>errors.New("no change to send")\<close>, the insufficient-funds failure. \<open>IndexOutOfRange\<close>
  is the run-time panic of \<^verbatim>\<open>utxos[i]\<close> in the signer.
\<close>

datatype error =
    DecodeAddressFailed string
  | PayToAddrScriptFailed string
  | GetUTXOsFailed string
  | GetFeeRateFailed string
  | NoChangeToSend
  | WitnessSigHashFailed nat string
  | SignInputFailed nat string
  | SerializeFailed string
  | IndexOutOfRange nat

section \<open>float64, as far as EstimateFee uses it\<close>

text \<open>
  A finite binary64 value is \<open>m * 2 ^ e\<close> for integers \<open>m\<close>, \<open>e\<close> with \<open>\<bar>m\<bar> < 2 ^ 53\<close>
  and \<open>- 1074 \<le> e \<le> 971\<close>. The fee rate is decoded from JSON, so it is finite.
  An arithmetic result is the exact result rounded to 53 significant bits, ties to even
  (\<open>round53\<close>). The product in EstimateFee has an integer as its left factor, so it
  cannot underflow; a product beyond the binary64 range is beyond the int64 range too,
  where the conversion below no longer depends on the value.
\<close>

datatype float64 = Float64 (mantissa: int) (exponent: int)

definition valof :: "float64 \<Rightarrow> real" where
  "valof f = real_of_int (mantissa f) * 2 powi (exponent f)"

definition is_float64 :: "float64 \<Rightarrow> bool" where
  "is_float64 f \<longleftrightarrow> \<bar>mantissa f\<bar> < 2 ^ 53 \<and> - 1074 \<le> exponent f \<and> exponent f \<le> 971"

definition rne :: "int \<Rightarrow> nat \<Rightarrow> int" where
  \<comment> \<open>\<open>m / 2 ^ k\<close> rounded to the nearest integer, ties to the even one\<close>
  "rne m k =
     (let q = m div 2 ^ k; r = m mod 2 ^ k
      in if 2 * r < 2 ^ k then q
         else if 2 ^ k < 2 * r then q + 1
         else if even q then q else q + 1)"

definition round53 :: "float64 \<Rightarrow> float64" where
  "round53 f =
     (let k = bitlen \<bar>mantissa f\<bar> - 53
      in if k \<le> 0 then f else Float64 (rne (mantissa f) (nat k)) (exponent f + k))"

definition float64_of_int :: "int \<Rightarrow> float64" where
  \<comment> \<open>the conversion \<^verbatim>\<open>float64(vsize)\<close>\<close>
  "float64_of_int v = round53 (Float64 v 0)"

definition float64_mul :: "float64 \<Rightarrow> float64 \<Rightarrow> float64" where
  "float64_mul a b = round53 (Float64 (mantissa a * mantissa b) (exponent a + exponent b))"

definition truncate_float64 :: "float64 \<Rightarrow> int" where
  \<comment> \<open>the integer part, rounding towards zero\<close>
  "truncate_float64 f =
     (if 0 \<le> exponent f then mantissa f * 2 ^ nat (exponent f)
      else sgn (mantissa f) * (\<bar>mantissa f\<bar> div 2 ^ nat (- exponent f)))"

definition int64_of_float64 :: "float64 \<Rightarrow> int64" where
  \<comment> \<open>the conversion \<^verbatim>\<open>int64(x)\<close>: the fraction is discarded; when the integer part does
     not fit, Go leaves the result to the implementation, and amd64 gives the least int64\<close>
  "int64_of_float64 f =
     (let t = truncate_float64 f
      in if - (2 ^ 63) \<le> t \<and> t < 2 ^ 63 then word_of_int t else 0x8000000000000000)"

section \<open>helper.go\<close>

definition IsSegwitScript :: "bytes \<Rightarrow> bool" where
  "IsSegwitScript script \<longleftrightarrow>
     (length script = 22 \<and> script ! 0 = 0x00 \<and> script ! 1 = 0x14) \<or>
     (length script = 34 \<and> script ! 0 = 0x00 \<and> script ! 1 = 0x20)"

definition EstimateFee :: "go_int \<Rightarrow> go_int \<Rightarrow> float64 \<Rightarrow> int64" where
  "EstimateFee numInputs numOutputs feeRate =
     (let baseSize = 10;
          inputSize = 68 * numInputs;
          outputSize = 31 * numOutputs;
          vsize = baseSize + inputSize + outputSize
      in int64_of_float64 (float64_mul (float64_of_int (sint vsize)) feeRate) + 1)"

fun FetchPrevOutput :: "UTXO list \<Rightarrow> wire_OutPoint \<Rightarrow> wire_TxOut option" where
  "FetchPrevOutput [] outPoint = None"
| "FetchPrevOutput (utxo # utxos) outPoint =
     (if OutPoint utxo = outPoint
      then Some \<lparr>TxOut_Value = Value utxo, TxOut_PkScript = PkScript utxo\<rparr>
      else FetchPrevOutput utxos outPoint)"

section \<open>The collaborators outside the repository\<close>

text \<open>
  What the pipeline calls and does not implement: the address and script codecs, the
  signature-hash and signing primitives, the wire serialiser, the library sort, and the
  answers of the chain-data provider (\<open>GetUTXOs\<close> and \<open>GetFeeRate\<close> are HTTP requests).
  Each is a field of the world the pipeline runs in; a failing call returns its message.
\<close>

record world =
  btcutil_DecodeAddress :: "string \<Rightarrow> string + bytes"
  txscript_PayToAddrScript :: "bytes \<Rightarrow> string + bytes"
  GetUTXOs :: "string \<Rightarrow> string + UTXO list"
  GetFeeRate :: "string + float64"
  sort_Slice :: "(UTXO \<Rightarrow> UTXO \<Rightarrow> bool) \<Rightarrow> UTXO list \<Rightarrow> UTXO list"
  txscript_NewTxSigHashes :: "wire_MsgTx \<Rightarrow> (wire_OutPoint \<Rightarrow> wire_TxOut option) \<Rightarrow> bytes"
  txscript_CalcWitnessSigHash :: "bytes \<Rightarrow> bytes \<Rightarrow> wire_MsgTx \<Rightarrow> nat \<Rightarrow> int64 \<Rightarrow> string + bytes"
  ecdsa_Sign_Serialize :: "bytes \<Rightarrow> bytes \<Rightarrow> bytes"
  PubKey_SerializeCompressed :: "bytes \<Rightarrow> bytes"
  txscript_SignatureScript :: "wire_MsgTx \<Rightarrow> nat \<Rightarrow> bytes \<Rightarrow> bytes \<Rightarrow> string + bytes"
  MsgTx_Serialize :: "wire_MsgTx \<Rightarrow> string + bytes"

text \<open>
  \<^verbatim>\<open>sort.Slice(x, less)\<close> promises a permutation of the slice in which no element is
  \<open>less\<close> than one before it, for a \<open>less\<close> that is a strict weak ordering; it does not
  promise to keep equal elements in their order.
\<close>

definition strict_weak_order :: "('a \<Rightarrow> 'a \<Rightarrow> bool) \<Rightarrow> bool" where
  "strict_weak_order lt \<longleftrightarrow>
     (\<forall>a. \<not> lt a a) \<and>
     (\<forall>a b c. lt a b \<and> lt b c \<longrightarrow> lt a c) \<and>
     (\<forall>a b c. \<not> lt a b \<and> \<not> lt b c \<longrightarrow> \<not> lt a c)"

definition sort_Slice_contract :: "(('a \<Rightarrow> 'a \<Rightarrow> bool) \<Rightarrow> 'a list \<Rightarrow> 'a list) \<Rightarrow> bool" where
  "sort_Slice_contract srt \<longleftrightarrow>
     (\<forall>lt xs. strict_weak_order lt \<longrightarrow>
        mset (srt lt xs) = mset xs \<and> sorted_wrt (\<lambda>a b. \<not> lt b a) (srt lt xs))"

text \<open>
  The sort the library runs on a short slice (at most 12 elements from Go 1.19 on, at
  most 6 before), insertion sort: element \<open>i\<close> moves left while it is \<open>less\<close> than its
  left neighbour. The sorted part is kept in reverse, its last element at the head.
\<close>

fun insertionSort_step :: "('a \<Rightarrow> 'a \<Rightarrow> bool) \<Rightarrow> 'a \<Rightarrow> 'a list \<Rightarrow> 'a list" where
  "insertionSort_step lt x [] = [x]"
| "insertionSort_step lt x (p # ps) =
     (if lt x p then p # insertionSort_step lt x ps else x # p # ps)"

definition insertionSort :: "('a \<Rightarrow> 'a \<Rightarrow> bool) \<Rightarrow> 'a list \<Rightarrow> 'a list" where
  "insertionSort lt xs = rev (foldl (\<lambda>ps x. insertionSort_step lt x ps) [] xs)"

section \<open>main.go\<close>

subsection \<open>The wire constructors used\<close>

definition TxVersion :: int32 where
  "TxVersion = 1"

definition MaxTxInSequenceNum :: uint32 where
  "MaxTxInSequenceNum = 0xffffffff"

definition SigHashAll :: "8 word" where
  "SigHashAll = 0x01"

definition NewMsgTx :: "int32 \<Rightarrow> wire_MsgTx" where
  "NewMsgTx v = \<lparr>Version = v, TxIn = [], TxOut = [], LockTime = 0\<rparr>"

definition NewTxIn :: "wire_OutPoint \<Rightarrow> bytes \<Rightarrow> bytes list \<Rightarrow> wire_TxIn" where
  "NewTxIn prevOut signatureScript witness =
     \<lparr>PreviousOutPoint = prevOut, SignatureScript = signatureScript,
      Witness = witness, Sequence = MaxTxInSequenceNum\<rparr>"

definition NewTxOut :: "int64 \<Rightarrow> bytes \<Rightarrow> wire_TxOut" where
  "NewTxOut v pkScript = \<lparr>TxOut_Value = v, TxOut_PkScript = pkScript\<rparr>"

definition AddTxIn :: "wire_MsgTx \<Rightarrow> wire_TxIn \<Rightarrow> wire_MsgTx" where
  "AddTxIn tx ti = tx\<lparr>TxIn := TxIn tx @ [ti]\<rparr>"

definition AddTxOut :: "wire_MsgTx \<Rightarrow> wire_TxOut \<Rightarrow> wire_MsgTx" where
  "AddTxOut tx out = tx\<lparr>TxOut := TxOut tx @ [out]\<rparr>"

subsection \<open>addOutput\<close>

definition addOutput :: "world \<Rightarrow> wire_MsgTx \<Rightarrow> string \<Rightarrow> int64 \<Rightarrow> error + wire_MsgTx" where
  "addOutput w tx receiverAddress amount =
     (case btcutil_DecodeAddress w receiverAddress of
        Inl err \<Rightarrow> Inl (DecodeAddressFailed err)
      | Inr addr \<Rightarrow>
          (case txscript_PayToAddrScript w addr of
             Inl err \<Rightarrow> Inl (PayToAddrScriptFailed err)
           | Inr pkScript \<Rightarrow> Inr (AddTxOut tx (NewTxOut amount pkScript))))"

subsection \<open>selectUTXOs\<close>

text \<open>
  The loop of selectUTXOs over the sorted slice: append, add, and leave the loop once
  the total has reached the amount. The test comes after the append.
\<close>

fun select_loop :: "UTXO list \<Rightarrow> int64 \<Rightarrow> UTXO list \<Rightarrow> int64 \<Rightarrow> UTXO list \<times> int64" where
  "select_loop [] amount selectedUTXOs totalValue = (selectedUTXOs, totalValue)"
| "select_loop (utxo # utxos) amount selectedUTXOs totalValue =
     (let selectedUTXOs' = selectedUTXOs @ [utxo];
          totalValue' = totalValue + Value utxo
      in if amount \<le>s totalValue' then (selectedUTXOs', totalValue')
         else select_loop utxos amount selectedUTXOs' totalValue')"

definition by_value_desc :: "UTXO \<Rightarrow> UTXO \<Rightarrow> bool" where
  \<comment> \<open>the closure given to sort.Slice: \<^verbatim>\<open>utxos[i].Value > utxos[j].Value\<close>\<close>
  "by_value_desc a b \<longleftrightarrow> Value b <s Value a"

definition select_sorted ::
  "((UTXO \<Rightarrow> UTXO \<Rightarrow> bool) \<Rightarrow> UTXO list \<Rightarrow> UTXO list) \<Rightarrow> UTXO list \<Rightarrow> int64 \<Rightarrow> UTXO list \<times> int64" where
  \<comment> \<open>selectUTXOs after the fetch: the sort and the loop\<close>
  "select_sorted srt utxos amount = select_loop (srt by_value_desc utxos) amount [] 0"

definition selectUTXOs :: "world \<Rightarrow> string \<Rightarrow> int64 \<Rightarrow> error + (UTXO list \<times> int64)" where
  "selectUTXOs w addr amount =
     (case GetUTXOs w addr of
        Inl err \<Rightarrow> Inl (GetUTXOsFailed err)
      | Inr utxos \<Rightarrow> Inr (select_sorted (sort_Slice w) utxos amount))"

subsection \<open>addInputs\<close>

fun addInputs :: "wire_MsgTx \<Rightarrow> UTXO list \<Rightarrow> error + wire_MsgTx" where
  "addInputs tx [] = Inr tx"
| "addInputs tx (utxo # utxos) =
     (let txIn = NewTxIn (OutPoint utxo) [] [];
          txIn = (if IsSegwitScript (PkScript utxo) then txIn\<lparr>SignatureScript := []\<rparr> else txIn)
      in addInputs (AddTxIn tx txIn) utxos)"

subsection \<open>signTransaction\<close>

definition set_Witness :: "wire_MsgTx \<Rightarrow> nat \<Rightarrow> bytes list \<Rightarrow> wire_MsgTx" where
  \<comment> \<open>\<^verbatim>\<open>txIn.Witness = ...\<close> through the pointer \<^verbatim>\<open>tx.TxIn[i]\<close>\<close>
  "set_Witness tx i wit = tx\<lparr>TxIn := (TxIn tx)[i := (TxIn tx ! i)\<lparr>Witness := wit\<rparr>]\<rparr>"

definition set_SignatureScript :: "wire_MsgTx \<Rightarrow> nat \<Rightarrow> bytes \<Rightarrow> wire_MsgTx" where
  "set_SignatureScript tx i s = tx\<lparr>TxIn := (TxIn tx)[i := (TxIn tx ! i)\<lparr>SignatureScript := s\<rparr>]\<rparr>"

definition sign_input :: "world \<Rightarrow> bytes \<Rightarrow> UTXO list \<Rightarrow> nat \<Rightarrow> wire_MsgTx \<Rightarrow> error + wire_MsgTx" where
  \<comment> \<open>the body of the loop of signTransaction, for input \<open>i\<close>\<close>
  "sign_input w privKey utxos i tx =
     (if length utxos \<le> i then Inl (IndexOutOfRange i)
      else if IsSegwitScript (PkScript (utxos ! i)) then
        (let hashes = txscript_NewTxSigHashes w tx (FetchPrevOutput utxos)
         in case txscript_CalcWitnessSigHash w (PkScript (utxos ! i)) hashes tx i (Value (utxos ! i)) of
              Inl err \<Rightarrow> Inl (WitnessSigHashFailed i err)
            | Inr hash \<Rightarrow>
                (let sig = ecdsa_Sign_Serialize w privKey hash @ [SigHashAll];
                     pkData = PubKey_SerializeCompressed w privKey
                 in Inr (set_Witness tx i [sig, pkData])))
      else
        (case txscript_SignatureScript w tx i (PkScript (utxos ! i)) privKey of
           Inl err \<Rightarrow> Inl (SignInputFailed i err)
         | Inr sig \<Rightarrow> Inr (set_SignatureScript tx i sig)))"

fun sign_loop :: "world \<Rightarrow> bytes \<Rightarrow> UTXO list \<Rightarrow> nat list \<Rightarrow> wire_MsgTx \<Rightarrow> error + wire_MsgTx" where
  "sign_loop w privKey utxos [] tx = Inr tx"
| "sign_loop w privKey utxos (i # is) tx =
     (case sign_input w privKey utxos i tx of
        Inl err \<Rightarrow> Inl err
      | Inr tx' \<Rightarrow> sign_loop w privKey utxos is tx')"

definition signTransaction :: "world \<Rightarrow> wire_MsgTx \<Rightarrow> bytes \<Rightarrow> UTXO list \<Rightarrow> error + wire_MsgTx" where
  \<comment> \<open>\<^verbatim>\<open>for i, txIn := range tx.TxIn\<close>: the indices of the inputs, in order\<close>
  "signTransaction w tx privateKeyBytes utxos =
     sign_loop w privateKeyBytes utxos [0..<length (TxIn tx)] tx"

subsection \<open>CreateTransaction\<close>

definition CreateTransaction_unsigned ::
  "world \<Rightarrow> Wallet \<Rightarrow> string \<Rightarrow> int64 \<Rightarrow> error + (wire_MsgTx \<times> UTXO list)" where
  \<comment> \<open>CreateTransaction up to the call of signTransaction: the transaction and the UTXO
     list that call receives\<close>
  "CreateTransaction_unsigned w wallet receiverAddress amount =
     (case addOutput w (NewMsgTx TxVersion) receiverAddress amount of
        Inl err \<Rightarrow> Inl err
      | Inr tx1 \<Rightarrow>
     (case selectUTXOs w (address wallet) amount of
        Inl err \<Rightarrow> Inl err
      | Inr (selectedUTXOs, totalValue) \<Rightarrow>
     (case addInputs tx1 selectedUTXOs of
        Inl err \<Rightarrow> Inl err
      | Inr tx2 \<Rightarrow>
     (case GetFeeRate w of
        Inl err \<Rightarrow> Inl (GetFeeRateFailed err)
      | Inr feeRate \<Rightarrow>
          (let fee = EstimateFee (of_nat (length selectedUTXOs)) 2 feeRate;
               changeAmount = totalValue - amount - fee
           in if 0 <s changeAmount then
                (case addOutput w tx2 (address wallet) changeAmount of
                   Inl err \<Rightarrow> Inl err
                 | Inr tx3 \<Rightarrow> Inr (tx3, selectedUTXOs))
              else Inl NoChangeToSend)))))"

definition CreateTransaction :: "world \<Rightarrow> Wallet \<Rightarrow> string \<Rightarrow> int64 \<Rightarrow> error + bytes" where
  "CreateTransaction w wallet receiverAddress amount =
     (case CreateTransaction_unsigned w wallet receiverAddress amount of
        Inl err \<Rightarrow> Inl err
      | Inr (tx, selectedUTXOs) \<Rightarrow>
          (case signTransaction w tx (privateKey wallet) selectedUTXOs of
             Inl err \<Rightarrow> Inl err
           | Inr tx' \<Rightarrow>
               (case MsgTx_Serialize w tx' of
                  Inl err \<Rightarrow> Inl (SerializeFailed err)
                | Inr buf \<Rightarrow> Inr buf)))"

section \<open>Notions the statements use\<close>

text \<open>
  The total of a list of UTXOs as a mathematical integer, the virtual size as the
  specification words it (base overhead 10, 68 per input, 31 per output), and rounding
  of a real towards zero.
\<close>

definition utxo_total :: "UTXO list \<Rightarrow> int" where
  "utxo_total utxos = sum_list (map (\<lambda>u. sint (Value u)) utxos)"

definition spec_vsize :: "int \<Rightarrow> int \<Rightarrow> int" where
  "spec_vsize numInputs numOutputs = 10 + 68 * numInputs + 31 * numOutputs"

definition truncate_real :: "real \<Rightarrow> int" where
  "truncate_real x = (if 0 \<le> x then \<lfloor>x\<rfloor> else \<lceil>x\<rceil>)"

definition output_values :: "error + (wire_MsgTx \<times> UTXO list) \<Rightarrow> error + int64 list" where
  "output_values r = (case r of Inl err \<Rightarrow> Inl err | Inr (tx, sel) \<Rightarrow> Inr (map TxOut_Value (TxOut tx)))"

section \<open>Concrete instances\<close>

text \<open>
  A world whose codecs and signing primitives are simple stand-ins, whose sort is the
  library's insertion sort and whose chain-data provider answers with a given UTXO list
  and fee rate; its serialiser writes the numbers of inputs and outputs. The control
  flow of the pipeline does not depend on the stand-ins.
\<close>

definition demo_outpoint :: "nat \<Rightarrow> wire_OutPoint" where
  "demo_outpoint n = \<lparr>Hash = replicate 32 0xab, Index = of_nat n\<rparr>"

definition p2wpkh_script :: bytes where
  "p2wpkh_script = 0x00 # 0x14 # replicate 20 0x11"

definition p2pkh_script :: bytes where
  "p2pkh_script = [0x76, 0xa9, 0x14] @ replicate 20 0x11 @ [0x88, 0xac]"

definition demo_utxo :: "nat \<Rightarrow> int64 \<Rightarrow> bytes \<Rightarrow> UTXO" where
  "demo_utxo n v script = \<lparr>OutPoint = demo_outpoint n, Value = v, PkScript = script\<rparr>"

definition demo_utxos :: "UTXO list" where
  "demo_utxos = [demo_utxo 0 500 p2wpkh_script, demo_utxo 1 1000 p2wpkh_script,
                 demo_utxo 2 300 p2pkh_script]"

definition demo_pair :: "UTXO list" where
  "demo_pair = [demo_utxo 0 10000 p2wpkh_script, demo_utxo 2 300 p2pkh_script]"

definition demo_rate :: float64 where
  \<comment> \<open>the binary64 value nearest to 0.3\<close>
  "demo_rate = Float64 5404319552844595 (- 54)"

definition demo_world :: "UTXO list \<Rightarrow> float64 \<Rightarrow> world" where
  "demo_world utxos feeRate =
     \<lparr>btcutil_DecodeAddress = (\<lambda>a. if a = [] then Inl ''empty address'' else Inr (map of_char a)),
      txscript_PayToAddrScript = (\<lambda>addr. Inr (0x00 # 0x14 # take 20 (addr @ replicate 20 0x00))),
      GetUTXOs = (\<lambda>a. Inr utxos),
      GetFeeRate = Inr feeRate,
      sort_Slice = insertionSort,
      txscript_NewTxSigHashes = (\<lambda>tx fetch. []),
      txscript_CalcWitnessSigHash = (\<lambda>script hashes tx i v. Inr (replicate 32 0x22)),
      ecdsa_Sign_Serialize = (\<lambda>key hash. 0x30 # take 8 hash),
      PubKey_SerializeCompressed = (\<lambda>key. 0x02 # replicate 32 0x33),
      txscript_SignatureScript = (\<lambda>tx i script key. Inr [0x47, 0x30]),
      MsgTx_Serialize = (\<lambda>tx. Inr [of_nat (length (TxIn tx)), of_nat (length (TxOut tx))])\<rparr>"

definition demo_wallet :: Wallet where
  "demo_wallet = \<lparr>privateKey = replicate 32 0x01, address = ''tb1qwallet''\<rparr>"

text \<open>
  A world like the one above whose signing primitives record what they are given: the
  witness signature hash is the input index, the script and the two low bytes of the
  value it is computed for, the serialised signature carries the hash it signs, and the
  legacy signature script is the input index followed by the script it is made for.
  With it, the selection of the three UTXOs above for the amount 1600.
\<close>

definition tracing_world :: "UTXO list \<Rightarrow> float64 \<Rightarrow> world" where
  \<comment> \<open>as \<open>demo_world\<close>, with signing stand-ins that record what they are given: the
     index of the input, the locking script and the two low bytes of the value\<close>
  "tracing_world utxos feeRate =
     (demo_world utxos feeRate)
       \<lparr>txscript_CalcWitnessSigHash :=
          (\<lambda>script hashes tx i v. Inr (of_nat i # script @ [ucast (drop_bit 8 v), ucast v])),
        ecdsa_Sign_Serialize := (\<lambda>key hash. 0x30 # hash),
        txscript_SignatureScript := (\<lambda>tx i script key. Inr (of_nat i # script))\<rparr>"

definition demo_selection :: "UTXO list" where
  "demo_selection = [demo_utxo 1 1000 p2wpkh_script, demo_utxo 0 500 p2wpkh_script,
                     demo_utxo 2 300 p2pkh_script]"

text \<open>
  The binary64 value nearest to \<open>1e300\<close>, and two UTXOs whose values add up to \<open>2 ^ 63\<close>.
\<close>

definition huge_rate :: float64 where
  \<comment> \<open>the binary64 value nearest to 1e300\<close>
  "huge_rate = Float64 6724873095247260 944"

definition overflow_utxos :: "UTXO list" where
  \<comment> \<open>two outputs of 2^62 satoshi each\<close>
  "overflow_utxos = [demo_utxo 0 4611686018427387904 p2wpkh_script,
                     demo_utxo 1 4611686018427387904 p2wpkh_script]"

section \<open>The library sort\<close>

lemma by_value_desc_swo: "strict_weak_order by_value_desc"
  unfolding strict_weak_order_def by_value_desc_def word_sless_alt by auto

lemma not_by_value_desc: "(\<not> by_value_desc b a) = (Value b \<le>s Value a)"
  unfolding by_value_desc_def word_sless_alt word_sle_eq by auto

lemma contract_by_value:
  assumes "sort_Slice_contract srt"
  shows "mset (srt by_value_desc xs) = mset xs"
    and "sorted_wrt (\<lambda>a b. Value b \<le>s Value a) (srt by_value_desc xs)"
  using assms by_value_desc_swo unfolding sort_Slice_contract_def
  by (auto simp: not_by_value_desc)

lemma mset_insertionSort_step: "mset (insertionSort_step lt x ps) = add_mset x (mset ps)"
  by (induction ps) auto

lemma set_insertionSort_step: "set (insertionSort_step lt x ps) = insert x (set ps)"
  by (induction ps) auto

lemma sorted_insertionSort_step:
  assumes "strict_weak_order lt" "sorted_wrt (\<lambda>a b. \<not> lt a b) ps"
  shows "sorted_wrt (\<lambda>a b. \<not> lt a b) (insertionSort_step lt x ps)"
  using assms(2)
proof (induction ps)
  case Nil
  then show ?case by simp
next
  case (Cons p ps)
  have asym: "\<And>a b. lt a b \<Longrightarrow> \<not> lt b a"
    using assms(1) unfolding strict_weak_order_def by blast
  have ntrans: "\<And>a b c. \<not> lt a b \<Longrightarrow> \<not> lt b c \<Longrightarrow> \<not> lt a c"
    using assms(1) unfolding strict_weak_order_def by blast
  show ?case
  proof (cases "lt x p")
    case True
    then show ?thesis using Cons asym by (auto simp: set_insertionSort_step)
  next
    case False
    then show ?thesis using Cons ntrans by auto
  qed
qed

lemma foldl_insertionSort_step:
  "mset (foldl (\<lambda>ps x. insertionSort_step lt x ps) acc xs) = mset acc + mset xs"
  by (induction xs arbitrary: acc) (auto simp: mset_insertionSort_step)

lemma sorted_foldl_insertionSort_step:
  assumes "strict_weak_order lt"
  shows "sorted_wrt (\<lambda>a b. \<not> lt a b) acc \<Longrightarrow>
         sorted_wrt (\<lambda>a b. \<not> lt a b) (foldl (\<lambda>ps x. insertionSort_step lt x ps) acc xs)"
  by (induction xs arbitrary: acc) (auto simp: sorted_insertionSort_step[OF assms])

lemma insertionSort_contract: "sort_Slice_contract insertionSort"
  unfolding sort_Slice_contract_def insertionSort_def
  by (auto simp: foldl_insertionSort_step sorted_wrt_rev sorted_foldl_insertionSort_step)

section \<open>Totals in int64 and in the integers\<close>

lemma sint_add_in_range:
  fixes a b :: int64
  assumes "- (2^63) \<le> sint a + sint b" "sint a + sint b < 2^63"
  shows "sint (a + b) = sint a + sint b"
  using assms by (simp add: sint_word_ariths signed_take_bit_int_eq_self)

lemma utxo_total_nonneg: "\<forall>u\<in>set xs. 0 \<le>s Value u \<Longrightarrow> 0 \<le> utxo_total xs"
  unfolding utxo_total_def by (induction xs) (auto simp: word_sle_eq)

lemma utxo_total_append [simp]: "utxo_total (xs @ ys) = utxo_total xs + utxo_total ys"
  by (simp add: utxo_total_def)

lemma utxo_total_Cons [simp]: "utxo_total (x # xs) = sint (Value x) + utxo_total xs"
  by (simp add: utxo_total_def)

lemma utxo_total_Nil [simp]: "utxo_total [] = 0"
  by (simp add: utxo_total_def)

lemma utxo_total_mset: "mset xs = mset ys \<Longrightarrow> utxo_total xs = utxo_total ys"
proof -
  assume "mset xs = mset ys"
  then have "mset (map (\<lambda>u. sint (Value u)) xs) = mset (map (\<lambda>u. sint (Value u)) ys)" by simp
  then show ?thesis unfolding utxo_total_def by (metis sum_mset_sum_list)
qed

lemma utxo_total_take_le:
  assumes "\<forall>u\<in>set xs. 0 \<le>s Value u"
  shows "utxo_total (take k xs) \<le> utxo_total xs"
proof -
  have "utxo_total xs = utxo_total (take k xs) + utxo_total (drop k xs)"
    by (metis append_take_drop_id utxo_total_append)
  moreover have "0 \<le> utxo_total (drop k xs)"
    using assms by (intro utxo_total_nonneg) (auto dest: in_set_dropD)
  ultimately show ?thesis by simp
qed

lemma sint_sum_list_Value:
  assumes "\<forall>u\<in>set xs. 0 \<le>s Value u" "utxo_total xs < 2^63"
  shows "sint (sum_list (map Value xs)) = utxo_total xs"
  using assms
proof (induction xs rule: rev_induct)
  case Nil
  then show ?case by simp
next
  case (snoc x xs)
  have nn: "0 \<le> utxo_total xs" "0 \<le> sint (Value x)"
    using snoc.prems(1) utxo_total_nonneg[of xs] by (auto simp: word_sle_eq)
  with snoc.prems(2) have "utxo_total xs < 2^63" by simp
  with snoc have IH: "sint (sum_list (map Value xs)) = utxo_total xs" by simp
  show ?case using snoc.prems(2) nn IH
    by (simp add: sint_add_in_range)
qed

lemma utxo_total_submset:
  assumes "\<forall>u\<in>set xs. 0 \<le>s Value u" "mset ys \<subseteq># mset xs"
  shows "utxo_total ys \<le> utxo_total xs"
proof -
  from assms(2) obtain zs where zs: "mset xs = mset ys + mset zs"
    by (metis ex_mset subset_mset.add_diff_inverse)
  then have "mset xs = mset (ys @ zs)" by simp
  then have "utxo_total xs = utxo_total ys + utxo_total zs"
    using utxo_total_mset utxo_total_append by metis
  moreover have "set zs \<subseteq> set xs" using zs by (metis mset_append set_append set_mset_mset sup_ge2 \<open>mset xs = mset (ys @ zs)\<close>)
  then have "0 \<le> utxo_total zs" using assms(1) by (intro utxo_total_nonneg) auto
  ultimately show ?thesis by simp
qed

lemma neg_sum_sle_zero:
  fixes a f :: int64
  assumes "0 \<le> sint a + sint f" "sint a + sint f \<le> 2^63"
  shows "0 - a - f \<le>s 0"
proof -
  have "0 - a - f = word_of_int (- (sint a + sint f))" by simp
  then have "sint (0 - a - f) = signed_take_bit 63 (- (sint a + sint f))"
    by (simp only: sint_sbintrunc') simp
  also have "\<dots> = - (sint a + sint f)"
    using assms by (intro signed_take_bit_int_eq_self) auto
  finally show ?thesis using assms(1) by (simp add: word_sle_eq)
qed

lemma change_in_range:
  fixes T a f :: int64
  assumes "0 \<le> sint T" "0 \<le> sint a" "0 \<le> sint f" "sint a + sint f < 2^63"
  shows "sint (T - a - f) = sint T - sint a - sint f"
proof -
  have lt: "sint T < 2^63" using sint_lt[of T] by simp
  have "T - a - f = word_of_int (sint T - sint a - sint f)" by simp
  then have "sint (T - a - f) = signed_take_bit 63 (sint T - sint a - sint f)"
    by (simp only: sint_sbintrunc') simp
  also have "\<dots> = sint T - sint a - sint f"
    using assms lt by (intro signed_take_bit_int_eq_self) auto
  finally show ?thesis .
qed

section \<open>The selection loop\<close>

lemma select_loop_shape:
  "\<exists>k\<le>length ys.
      select_loop ys T sel tot = (sel @ take k ys, tot + sum_list (map Value (take k ys)))
    \<and> (ys \<noteq> [] \<longrightarrow> 0 < k)
    \<and> (k < length ys \<longrightarrow> T \<le>s tot + sum_list (map Value (take k ys)))
    \<and> (\<forall>j. 0 < j \<and> j < k \<longrightarrow> \<not> T \<le>s tot + sum_list (map Value (take j ys)))"
proof (induction ys arbitrary: sel tot)
  case Nil
  then show ?case by simp
next
  case (Cons u us)
  show ?case
  proof (cases "T \<le>s tot + Value u")
    case True
    then show ?thesis by (intro exI[of _ 1]) simp
  next
    case False
    from Cons[of "sel @ [u]" "tot + Value u"] obtain k where k: "k \<le> length us"
      "select_loop us T (sel @ [u]) (tot + Value u)
         = ((sel @ [u]) @ take k us, tot + Value u + sum_list (map Value (take k us)))"
      "us \<noteq> [] \<longrightarrow> 0 < k"
      "k < length us \<longrightarrow> T \<le>s tot + Value u + sum_list (map Value (take k us))"
      "\<forall>j. 0 < j \<and> j < k \<longrightarrow> \<not> T \<le>s tot + Value u + sum_list (map Value (take j us))"
      by blast
    have "\<not> T \<le>s tot + sum_list (map Value (take j (u # us)))" if "0 < j" "j < Suc k" for j
    proof (cases j)
      case 0
      then show ?thesis using that by simp
    next
      case (Suc j')
      then show ?thesis using that k(5) False by (cases j') (auto simp: add.assoc)
    qed
    then show ?thesis using k False
      by (intro exI[of _ "Suc k"]) (auto simp: add.assoc)
  qed
qed

lemma select_sorted_shape:
  assumes srt: "sort_Slice_contract srt"
      and nonneg: "\<forall>u\<in>set utxos. 0 \<le>s Value u"
      and range: "utxo_total utxos < 2^63"
  shows "\<exists>k\<le>length utxos.
           fst (select_sorted srt utxos T) = take k (srt by_value_desc utxos)
         \<and> sint (snd (select_sorted srt utxos T)) = utxo_total (take k (srt by_value_desc utxos))
         \<and> (\<forall>j. 0 < j \<and> j < k \<longrightarrow> utxo_total (take j (srt by_value_desc utxos)) < sint T)
         \<and> (k < length utxos \<longrightarrow> sint T \<le> utxo_total (take k (srt by_value_desc utxos)))"
proof -
  define ys where "ys = srt by_value_desc utxos"
  have ms: "mset ys = mset utxos" unfolding ys_def by (rule contract_by_value(1)[OF srt])
  then have len: "length ys = length utxos" by (metis size_mset)
  have sets: "set ys = set utxos" using ms by (metis set_mset_mset)
  have tot: "utxo_total ys = utxo_total utxos" by (rule utxo_total_mset[OF ms])
  have pre: "sint (sum_list (map Value (take j ys))) = utxo_total (take j ys)" for j
  proof (rule sint_sum_list_Value)
    show "\<forall>u\<in>set (take j ys). 0 \<le>s Value u" using nonneg sets by (auto dest: in_set_takeD)
    have "utxo_total (take j ys) \<le> utxo_total ys"
      using nonneg sets by (intro utxo_total_take_le) auto
    then show "utxo_total (take j ys) < 2^63" using tot range by simp
  qed
  from select_loop_shape[of ys T "[]" 0] obtain k where k: "k \<le> length ys"
    "select_loop ys T [] 0 = (take k ys, sum_list (map Value (take k ys)))"
    "k < length ys \<longrightarrow> T \<le>s sum_list (map Value (take k ys))"
    "\<forall>j. 0 < j \<and> j < k \<longrightarrow> \<not> T \<le>s sum_list (map Value (take j ys))"
    by auto
  show ?thesis
    using k len pre unfolding select_sorted_def ys_def[symmetric]
    by (intro exI[of _ k]) (auto simp: word_sle_eq)
qed

lemma select_loop_hd:
  "ys \<noteq> [] \<Longrightarrow> \<exists>k>0. select_loop ys T [] 0 = (take k ys, sum_list (map Value (take k ys)))
      \<and> (T \<le>s Value (hd ys) \<longrightarrow> k = 1)"
proof -
  assume ne: "ys \<noteq> []"
  from select_loop_shape[of ys T "[]" 0] obtain k where k: "k \<le> length ys"
    "select_loop ys T [] 0 = (take k ys, sum_list (map Value (take k ys)))"
    "ys \<noteq> [] \<longrightarrow> 0 < k"
    "\<forall>j. 0 < j \<and> j < k \<longrightarrow> \<not> T \<le>s sum_list (map Value (take j ys))"
    by auto
  have "k = 1" if "T \<le>s Value (hd ys)"
  proof (rule ccontr)
    assume "k \<noteq> 1"
    then have "1 < k" using k(3) ne by simp
    then have "\<not> T \<le>s sum_list (map Value (take 1 ys))" using k(4) by simp
    then show False using that ne by (cases ys) auto
  qed
  then show ?thesis using k ne by auto
qed

lemma select_sorted_total:
  "snd (select_sorted srt utxos T) = sum_list (map Value (fst (select_sorted srt utxos T)))"
  using select_loop_shape[of "srt by_value_desc utxos" T "[]" 0]
  by (auto simp: select_sorted_def)

lemma select_sorted_covers:
  assumes srt: "sort_Slice_contract srt"
      and nonneg: "\<forall>u\<in>set utxos. 0 \<le>s Value u"
      and range: "utxo_total utxos < 2^63"
      and enough: "sint T \<le> utxo_total utxos"
  shows "sint T \<le> sint (snd (select_sorted srt utxos T))"
proof -
  define ys where "ys = srt by_value_desc utxos"
  have ms: "mset ys = mset utxos" unfolding ys_def by (rule contract_by_value(1)[OF srt])
  then have len: "length ys = length utxos" by (metis size_mset)
  from select_sorted_shape[OF srt nonneg range, of T] obtain k where k: "k \<le> length utxos"
    "sint (snd (select_sorted srt utxos T)) = utxo_total (take k ys)"
    "k < length utxos \<longrightarrow> sint T \<le> utxo_total (take k ys)"
    unfolding ys_def by blast
  show ?thesis
  proof (cases "k < length utxos")
    case True
    then show ?thesis using k by simp
  next
    case False
    then have "take k ys = ys" using k(1) len by simp
    then show ?thesis using k(2) utxo_total_mset[OF ms] enough by simp
  qed
qed

lemma select_sorted_submset:
  assumes srt: "sort_Slice_contract srt"
  shows "mset (fst (select_sorted srt utxos T)) \<subseteq># mset utxos"
proof -
  define ys where "ys = srt by_value_desc utxos"
  have ms: "mset ys = mset utxos" unfolding ys_def by (rule contract_by_value(1)[OF srt])
  from select_loop_shape[of ys T "[]" 0] obtain k where
    "select_loop ys T [] 0 = (take k ys, sum_list (map Value (take k ys)))"
    by auto
  then have "fst (select_sorted srt utxos T) = take k ys"
    by (simp add: select_sorted_def ys_def)
  moreover have "mset ys = mset (take k ys) + mset (drop k ys)"
    by (metis append_take_drop_id mset_append)
  ultimately show ?thesis using ms by (metis mset_subset_eq_add_left)
qed

lemma select_loop_values:
  "map Value as = map Value bs \<Longrightarrow> map Value sel = map Value sel' \<Longrightarrow>
     map Value (fst (select_loop as T sel tot)) = map Value (fst (select_loop bs T sel' tot))
   \<and> snd (select_loop as T sel tot) = snd (select_loop bs T sel' tot)"
proof (induction as arbitrary: bs sel sel' tot)
  case Nil
  then show ?case by simp
next
  case (Cons a as)
  then obtain b bs' where b: "bs = b # bs'" "Value a = Value b" "map Value as = map Value bs'"
    by (cases bs) auto
  have "map Value (sel @ [a]) = map Value (sel' @ [b])" using Cons.prems(2) b(2) by simp
  from Cons.IH[OF b(3) this, of "tot + Value a"] show ?case
    using b Cons.prems(2) by (simp add: Let_def)
qed

lemma sorted_desc_values_unique:
  assumes "mset as = mset bs"
      and "sorted_wrt (\<lambda>a b. Value b \<le>s Value a) as"
      and "sorted_wrt (\<lambda>a b. Value b \<le>s Value a) bs"
  shows "map Value as = map Value bs"
proof -
  let ?f = "\<lambda>u. - sint (Value u)"
  have s: "sorted (map ?f xs)" if "sorted_wrt (\<lambda>a b. Value b \<le>s Value a) xs" for xs
    using that by (induction xs) (auto simp: word_sle_eq)
  have "mset (map ?f as) = mset (map ?f bs)" using assms(1) by simp
  then have "map ?f as = map ?f bs"
    using properties_for_sort[of "map ?f as" "map ?f bs"] properties_for_sort[of "map ?f bs" "map ?f bs"]
      s[OF assms(2)] s[OF assms(3)] by simp
  then have "map ((\<lambda>w. - sint w) \<circ> Value) as = map ((\<lambda>w. - sint w) \<circ> Value) bs"
    by (simp add: comp_def)
  then have "map (\<lambda>w::int64. - sint w) (map Value as) = map (\<lambda>w. - sint w) (map Value bs)"
    by simp
  moreover have "inj (\<lambda>w::int64. - sint w)" by (auto simp: inj_def intro: signed_word_eqI)
  ultimately show ?thesis by (metis inj_map_eq_map)
qed

lemma distinct_values_eq:
  assumes "mset as = mset bs" "map Value as = map Value bs" "distinct (map Value as)"
  shows "as = bs"
proof -
  have "inj_on Value (set as)" using assms(3) by (simp add: distinct_map)
  moreover have "set bs = set as" using assms(1) by (metis set_mset_mset)
  ultimately have "inj_on Value (set as \<union> set bs)" by simp
  then show ?thesis using assms(2) by (simp add: inj_on_map_eq_map)
qed

lemma demo_nonneg: "\<forall>u\<in>set demo_utxos. 0 \<le>s Value u"
  by (simp add: demo_utxos_def demo_utxo_def word_sle_eq)

lemma demo_total: "utxo_total demo_utxos = 1800"
  by (simp add: demo_utxos_def demo_utxo_def)

section \<open>The pipeline up to signing\<close>

lemma addOutput_Inr:
  "addOutput w tx a v = Inr tx' \<longleftrightarrow>
     (\<exists>addr script. btcutil_DecodeAddress w a = Inr addr \<and> txscript_PayToAddrScript w addr = Inr script
        \<and> tx' = AddTxOut tx (NewTxOut v script))"
  by (auto simp: addOutput_def split: sum.splits)

lemma addOutput_not_NoChange: "addOutput w tx a v \<noteq> Inl NoChangeToSend"
  by (auto simp: addOutput_def split: sum.splits)

lemma addInputs_eq:
  "addInputs tx us = Inr (tx\<lparr>TxIn := TxIn tx @ map (\<lambda>u. NewTxIn (OutPoint u) [] []) us\<rparr>)"
  by (induction us arbitrary: tx) (auto simp: NewTxIn_def AddTxIn_def Let_def)

lemma selectUTXOs_Inr:
  "selectUTXOs w addr T = Inr (sel, tot) \<longleftrightarrow>
     (\<exists>utxos. GetUTXOs w addr = Inr utxos \<and> (sel, tot) = select_sorted (sort_Slice w) utxos T)"
  by (auto simp: selectUTXOs_def split: sum.splits)

lemma CreateTransaction_unsigned_reached:
  assumes "addOutput w (NewMsgTx TxVersion) receiverAddress amount = Inr tx1"
      and "selectUTXOs w (address wallet) amount = Inr (selectedUTXOs, totalValue)"
      and "GetFeeRate w = Inr feeRate"
  shows "CreateTransaction_unsigned w wallet receiverAddress amount =
     (let tx2 = tx1\<lparr>TxIn := TxIn tx1 @ map (\<lambda>u. NewTxIn (OutPoint u) [] []) selectedUTXOs\<rparr>;
          changeAmount = totalValue - amount - EstimateFee (of_nat (length selectedUTXOs)) 2 feeRate
      in if 0 <s changeAmount then
           (case addOutput w tx2 (address wallet) changeAmount of
              Inl err \<Rightarrow> Inl err
            | Inr tx3 \<Rightarrow> Inr (tx3, selectedUTXOs))
         else Inl NoChangeToSend)"
  using assms by (simp add: CreateTransaction_unsigned_def addInputs_eq Let_def)

lemma CreateTransaction_unsigned_Inr:
  assumes "CreateTransaction_unsigned w wallet receiverAddress amount = Inr (tx, sel)"
  shows "\<exists>tx1 totalValue feeRate.
           addOutput w (NewMsgTx TxVersion) receiverAddress amount = Inr tx1
         \<and> selectUTXOs w (address wallet) amount = Inr (sel, totalValue)
         \<and> GetFeeRate w = Inr feeRate
         \<and> 0 <s totalValue - amount - EstimateFee (of_nat (length sel)) 2 feeRate
         \<and> addOutput w (tx1\<lparr>TxIn := TxIn tx1 @ map (\<lambda>u. NewTxIn (OutPoint u) [] []) sel\<rparr>)
              (address wallet) (totalValue - amount - EstimateFee (of_nat (length sel)) 2 feeRate) = Inr tx"
  using assms
  by (auto simp: CreateTransaction_unsigned_def addInputs_eq Let_def
           split: sum.splits prod.splits if_splits)

lemma sign_input_not_NoChange: "sign_input w k us i tx \<noteq> Inl NoChangeToSend"
  by (auto simp: sign_input_def Let_def split: sum.splits)

lemma sign_loop_not_NoChange: "sign_loop w k us is tx \<noteq> Inl NoChangeToSend"
  by (induction "is" arbitrary: tx) (auto simp: sign_input_not_NoChange split: sum.splits)

lemma CreateTransaction_NoChange_iff:
  "CreateTransaction w wallet r a = Inl NoChangeToSend \<longleftrightarrow>
   CreateTransaction_unsigned w wallet r a = Inl NoChangeToSend"
  by (auto simp: CreateTransaction_def signTransaction_def sign_loop_not_NoChange
           split: sum.splits prod.splits)

lemma addOutput_ignores_signer:
  "addOutput
     (w\<lparr>txscript_NewTxSigHashes := n, txscript_CalcWitnessSigHash := h,
        ecdsa_Sign_Serialize := s, PubKey_SerializeCompressed := p,
        txscript_SignatureScript := l\<rparr>) tx a v
   = addOutput w tx a v"
  by (simp add: addOutput_def cong: sum.case_cong)

lemma selectUTXOs_ignores_signer:
  "selectUTXOs
     (w\<lparr>txscript_NewTxSigHashes := n, txscript_CalcWitnessSigHash := h,
        ecdsa_Sign_Serialize := s, PubKey_SerializeCompressed := p,
        txscript_SignatureScript := l\<rparr>) a v
   = selectUTXOs w a v"
  by (simp add: selectUTXOs_def cong: sum.case_cong)

lemma unsigned_ignores_signer:
  "CreateTransaction_unsigned
     (w\<lparr>txscript_NewTxSigHashes := n, txscript_CalcWitnessSigHash := h,
        ecdsa_Sign_Serialize := s, PubKey_SerializeCompressed := p,
        txscript_SignatureScript := l\<rparr>) wallet r a
   = CreateTransaction_unsigned w wallet r a"
  unfolding CreateTransaction_unsigned_def addOutput_ignores_signer selectUTXOs_ignores_signer
  by (simp cong: sum.case_cong prod.case_cong)

lemma demo_unsigned:
  "CreateTransaction_unsigned (demo_world [demo_utxo 0 10000 p2wpkh_script] (Float64 1 0))
      demo_wallet ''tb1qpayee'' 1200
   = Inr (fst (projr (CreateTransaction_unsigned (demo_world [demo_utxo 0 10000 p2wpkh_script] (Float64 1 0))
      demo_wallet ''tb1qpayee'' 1200)), [demo_utxo 0 10000 p2wpkh_script])"
  by code_simp

lemma tracing_unsigned:
  "CreateTransaction_unsigned (tracing_world demo_utxos demo_rate) demo_wallet ''tb1qpayee'' 1600
   = Inr (fst (projr (CreateTransaction_unsigned (tracing_world demo_utxos demo_rate)
                 demo_wallet ''tb1qpayee'' 1600)), demo_selection)"
  by code_simp

section \<open>The signer\<close>

lemma map_update_same_field:
  assumes "f y = f (xs ! i)"
  shows "map f (xs[i := y]) = map f xs"
proof (cases "i < length xs")
  case True
  then show ?thesis using assms by (simp add: map_update list_update_same_conv)
next
  case False
  then have "xs[i := y] = xs" by (intro list_update_beyond) simp
  then show ?thesis by simp
qed

lemma sign_input_frame:
  assumes "sign_input w k us i tx = Inr tx'"
  shows "TxOut tx' = TxOut tx"
    and "length (TxIn tx') = length (TxIn tx)"
    and "map PreviousOutPoint (TxIn tx') = map PreviousOutPoint (TxIn tx)"
    and "j \<noteq> i \<Longrightarrow> TxIn tx' ! j = TxIn tx ! j"
  using assms
  by (auto simp: sign_input_def Let_def set_Witness_def set_SignatureScript_def
        map_update_same_field split: if_splits sum.splits)

lemma sign_loop_frame:
  assumes "sign_loop w k us is tx = Inr tx'"
  shows "TxOut tx' = TxOut tx \<and> length (TxIn tx') = length (TxIn tx)
       \<and> map PreviousOutPoint (TxIn tx') = map PreviousOutPoint (TxIn tx)
       \<and> (\<forall>j. j \<notin> set is \<longrightarrow> TxIn tx' ! j = TxIn tx ! j)"
  using assms
proof (induction "is" arbitrary: tx)
  case Nil
  then show ?case by simp
next
  case (Cons i "is")
  from Cons.prems obtain tx1 where s: "sign_input w k us i tx = Inr tx1"
    "sign_loop w k us is tx1 = Inr tx'"
    by (auto split: sum.splits)
  from Cons.IH[OF s(2)] sign_input_frame[OF s(1)] show ?case by auto
qed

lemma sign_loop_at:
  assumes "sign_loop w k us is tx = Inr tx'" "i \<in> set is" "distinct is"
  shows "\<exists>txi txi'. sign_input w k us i txi = Inr txi'
           \<and> TxIn tx' ! i = TxIn txi' ! i
           \<and> TxIn txi ! i = TxIn tx ! i
           \<and> TxOut txi = TxOut tx
           \<and> length (TxIn txi) = length (TxIn tx)
           \<and> map PreviousOutPoint (TxIn txi) = map PreviousOutPoint (TxIn tx)"
  using assms
proof (induction "is" arbitrary: tx)
  case Nil
  then show ?case by simp
next
  case (Cons j js)
  from Cons.prems(1) obtain tx1 where s: "sign_input w k us j tx = Inr tx1"
    "sign_loop w k us js tx1 = Inr tx'"
    by (auto split: sum.splits)
  show ?case
  proof (cases "i = j")
    case True
    then have "i \<notin> set js" using Cons.prems(3) by simp
    then have "TxIn tx' ! i = TxIn tx1 ! i" using sign_loop_frame[OF s(2)] by blast
    then show ?thesis using s(1) True by blast
  next
    case False
    then have "i \<in> set js" "distinct js" using Cons.prems by auto
    from Cons.IH[OF s(2) this] obtain txi txi' where t:
      "sign_input w k us i txi = Inr txi'" "TxIn tx' ! i = TxIn txi' ! i"
      "TxIn txi ! i = TxIn tx1 ! i" "TxOut txi = TxOut tx1"
      "length (TxIn txi) = length (TxIn tx1)"
      "map PreviousOutPoint (TxIn txi) = map PreviousOutPoint (TxIn tx1)"
      by blast
    from sign_input_frame[OF s(1)] False t show ?thesis by (intro exI[of _ txi] exI[of _ txi']) auto
  qed
qed

lemma sign_input_not_IndexOutOfRange:
  "i < length us \<Longrightarrow> sign_input w k us i tx \<noteq> Inl (IndexOutOfRange j)"
  by (auto simp: sign_input_def Let_def split: sum.splits)

lemma sign_loop_not_IndexOutOfRange:
  "\<forall>i\<in>set is. i < length us \<Longrightarrow> sign_loop w k us is tx \<noteq> Inl (IndexOutOfRange j)"
  by (induction "is" arbitrary: tx) (auto simp: sign_input_not_IndexOutOfRange split: sum.splits)

lemma demo_signed:
  "signTransaction (demo_world demo_pair (Float64 1 0))
      (projr (addInputs (NewMsgTx TxVersion) demo_pair)) (privateKey demo_wallet) demo_pair
   = Inr (projr (signTransaction (demo_world demo_pair (Float64 1 0))
      (projr (addInputs (NewMsgTx TxVersion) demo_pair)) (privateKey demo_wallet) demo_pair))"
  by code_simp

lemma FetchPrevOutput_aligned:
  assumes "distinct (map OutPoint us)" "i < length us"
  shows "FetchPrevOutput us (OutPoint (us ! i))
           = Some \<lparr>TxOut_Value = Value (us ! i), TxOut_PkScript = PkScript (us ! i)\<rparr>"
  using assms
proof (induction us arbitrary: i)
  case Nil
  then show ?case by simp
next
  case (Cons u us)
  show ?case
  proof (cases i)
    case 0
    then show ?thesis by simp
  next
    case (Suc j)
    then have j: "j < length us" using Cons.prems(2) by simp
    then have "OutPoint (us ! j) \<in> set (map OutPoint us)" by simp
    then have "OutPoint u \<noteq> OutPoint (us ! j)" using Cons.prems(1) by auto
    then show ?thesis using Cons.IH[OF _ j] Cons.prems(1) Suc by simp
  qed
qed

lemma signed_input_shape:
  assumes txin: "TxIn tx = map (\<lambda>u. NewTxIn (OutPoint u) [] []) utxos"
      and signed: "signTransaction w tx privateKeyBytes utxos = Inr tx'"
      and i: "i < length utxos"
  shows "PreviousOutPoint (TxIn tx' ! i) = OutPoint (utxos ! i)
       \<and> (\<exists>txi. TxOut txi = TxOut tx
              \<and> map PreviousOutPoint (TxIn txi) = map OutPoint utxos
              \<and> (if IsSegwitScript (PkScript (utxos ! i))
                  then (\<exists>hash.
                          txscript_CalcWitnessSigHash w (PkScript (utxos ! i))
                            (txscript_NewTxSigHashes w txi (FetchPrevOutput utxos)) txi i
                            (Value (utxos ! i)) = Inr hash
                        \<and> Witness (TxIn tx' ! i)
                            = [ecdsa_Sign_Serialize w privateKeyBytes hash @ [SigHashAll],
                               PubKey_SerializeCompressed w privateKeyBytes])
                      \<and> SignatureScript (TxIn tx' ! i) = []
                  else txscript_SignatureScript w txi i (PkScript (utxos ! i)) privateKeyBytes
                         = Inr (SignatureScript (TxIn tx' ! i))
                      \<and> Witness (TxIn tx' ! i) = []))"
proof -
  have len: "length (TxIn tx) = length utxos" by (simp add: txin)
  have pos: "map PreviousOutPoint (TxIn tx) = map OutPoint utxos"
    by (simp add: txin NewTxIn_def comp_def)
  have loop: "sign_loop w privateKeyBytes utxos [0..<length (TxIn tx)] tx = Inr tx'"
    using signed by (simp add: signTransaction_def)
  have len': "length (TxIn tx') = length utxos" using sign_loop_frame[OF loop] len by simp
  have po: "PreviousOutPoint (TxIn tx' ! i) = OutPoint (utxos ! i)"
  proof -
    have "map PreviousOutPoint (TxIn tx') ! i = map PreviousOutPoint (TxIn tx) ! i"
      using sign_loop_frame[OF loop] by simp
    then show ?thesis using i len len' by (simp add: txin NewTxIn_def)
  qed
  have "i \<in> set [0..<length (TxIn tx)]" using i len by simp
  from sign_loop_at[OF loop this] obtain txi txi' where t:
    "sign_input w privateKeyBytes utxos i txi = Inr txi'" "TxIn tx' ! i = TxIn txi' ! i"
    "TxIn txi ! i = TxIn tx ! i" "TxOut txi = TxOut tx"
    "length (TxIn txi) = length (TxIn tx)"
    "map PreviousOutPoint (TxIn txi) = map PreviousOutPoint (TxIn tx)"
    by auto
  have before: "TxIn txi ! i = NewTxIn (OutPoint (utxos ! i)) [] []"
    using t(3) i by (simp add: txin)
  have ilen: "i < length (TxIn txi)" using t(5) len i by simp
  have shape: "if IsSegwitScript (PkScript (utxos ! i))
                  then (\<exists>hash.
                          txscript_CalcWitnessSigHash w (PkScript (utxos ! i))
                            (txscript_NewTxSigHashes w txi (FetchPrevOutput utxos)) txi i
                            (Value (utxos ! i)) = Inr hash
                        \<and> Witness (TxIn tx' ! i)
                            = [ecdsa_Sign_Serialize w privateKeyBytes hash @ [SigHashAll],
                               PubKey_SerializeCompressed w privateKeyBytes])
                      \<and> SignatureScript (TxIn tx' ! i) = []
                  else txscript_SignatureScript w txi i (PkScript (utxos ! i)) privateKeyBytes
                         = Inr (SignatureScript (TxIn tx' ! i))
                      \<and> Witness (TxIn tx' ! i) = []"
  proof (cases "IsSegwitScript (PkScript (utxos ! i))")
    case True
    from t(1) True i obtain hash where h:
      "txscript_CalcWitnessSigHash w (PkScript (utxos ! i))
         (txscript_NewTxSigHashes w txi (FetchPrevOutput utxos)) txi i (Value (utxos ! i)) = Inr hash"
      "txi' = set_Witness txi i [ecdsa_Sign_Serialize w privateKeyBytes hash @ [SigHashAll],
                                  PubKey_SerializeCompressed w privateKeyBytes]"
      by (auto simp: sign_input_def Let_def split: sum.splits)
    have "TxIn tx' ! i = (NewTxIn (OutPoint (utxos ! i)) [] [])
            \<lparr>Witness := [ecdsa_Sign_Serialize w privateKeyBytes hash @ [SigHashAll],
                         PubKey_SerializeCompressed w privateKeyBytes]\<rparr>"
      using t(2) h(2) ilen before by (simp add: set_Witness_def)
    then have e: "Witness (TxIn tx' ! i) = [ecdsa_Sign_Serialize w privateKeyBytes hash @ [SigHashAll],
                         PubKey_SerializeCompressed w privateKeyBytes]"
      "SignatureScript (TxIn tx' ! i) = []"
      by (simp_all add: NewTxIn_def)
    show ?thesis using True h(1) e by auto
  next
    case False
    from t(1) False i obtain sig where h:
      "txscript_SignatureScript w txi i (PkScript (utxos ! i)) privateKeyBytes = Inr sig"
      "txi' = set_SignatureScript txi i sig"
      by (auto simp: sign_input_def Let_def split: sum.splits)
    have "TxIn tx' ! i = (NewTxIn (OutPoint (utxos ! i)) [] [])\<lparr>SignatureScript := sig\<rparr>"
      using t(2) h(2) ilen before by (simp add: set_SignatureScript_def)
    then have e: "SignatureScript (TxIn tx' ! i) = sig" "Witness (TxIn tx' ! i) = []"
      by (simp_all add: NewTxIn_def)
    show ?thesis using False h(1) e by auto
  qed
  show ?thesis using po t(4) t(6) pos shape by (intro conjI exI[of _ txi]) simp_all
qed

lemma tracing_signed:
  "signTransaction (tracing_world demo_utxos demo_rate)
      (fst (projr (CreateTransaction_unsigned (tracing_world demo_utxos demo_rate)
                 demo_wallet ''tb1qpayee'' 1600)))
      (privateKey demo_wallet) demo_selection
   = Inr (projr (signTransaction (tracing_world demo_utxos demo_rate)
      (fst (projr (CreateTransaction_unsigned (tracing_world demo_utxos demo_rate)
                 demo_wallet ''tb1qpayee'' 1600)))
      (privateKey demo_wallet) demo_selection))"
  by code_simp

section \<open>Rounding to binary64 and to int64\<close>

lemma rne_error: "\<bar>2 * (rne m k * 2 ^ k - m)\<bar> \<le> 2 ^ k"
proof -
  define q where "q = m div 2 ^ k"
  define r where "r = m mod 2 ^ k"
  have m: "m = q * 2 ^ k + r" unfolding q_def r_def by (rule div_mult_mod_eq[symmetric])
  have r: "0 \<le> r" "r < 2 ^ k" by (simp_all add: r_def)
  have "rne m k = (if 2 * r < 2 ^ k then q else if 2 ^ k < 2 * r then q + 1
                   else if even q then q else q + 1)"
    by (simp add: rne_def Let_def q_def r_def)
  then show ?thesis using r unfolding m by (auto simp: algebra_simps split: if_splits)
qed

lemma rne_bounds: "m div 2 ^ k \<le> rne m k" "rne m k \<le> m div 2 ^ k + 1"
  by (auto simp: rne_def Let_def)

lemma rne_mono: assumes "m1 \<le> m2" shows "rne m1 k \<le> rne m2 k"
proof -
  define q1 where "q1 = m1 div 2 ^ k"
  define q2 where "q2 = m2 div 2 ^ k"
  define r1 where "r1 = m1 mod 2 ^ k"
  define r2 where "r2 = m2 mod 2 ^ k"
  have q: "q1 \<le> q2" unfolding q1_def q2_def using assms by (simp add: zdiv_mono1)
  show ?thesis
  proof (cases "q1 < q2")
    case True
    have "rne m1 k \<le> q1 + 1" unfolding q1_def by (rule rne_bounds)
    also have "\<dots> \<le> q2" using True by simp
    also have "\<dots> \<le> rne m2 k" unfolding q2_def by (rule rne_bounds)
    finally show ?thesis .
  next
    case False
    then have e: "q1 = q2" using q by simp
    have "m1 = q1 * 2 ^ k + r1" "m2 = q2 * 2 ^ k + r2"
      unfolding q1_def q2_def r1_def r2_def by (rule div_mult_mod_eq[symmetric])+
    then have "r1 \<le> r2" using assms e by simp
    then show ?thesis
      using e unfolding rne_def Let_def q1_def[symmetric] q2_def[symmetric]
        r1_def[symmetric] r2_def[symmetric]
      by auto
  qed
qed

lemma rne_multiple [simp]: "rne (a * 2 ^ k) k = a"
  by (simp add: rne_def Let_def)

lemma rne_zero_shift [simp]: "rne m 0 = m"
  by (simp add: rne_def Let_def)

lemma rne_scale: "rne (m * 2 ^ d) (k + d) = rne m k"
proof -
  have p: "(2::int) ^ (k + d) = 2 ^ k * 2 ^ d" by (simp add: power_add)
  have dv: "(m * 2 ^ d) div (2 ^ k * 2 ^ d) = m div 2 ^ k" by simp
  have md: "(m * 2 ^ d) mod (2 ^ k * 2 ^ d) = (m mod 2 ^ k) * 2 ^ d"
    by (simp add: mult_mod_left mult.commute)
  have c1: "(2 * ((m mod 2 ^ k) * 2 ^ d) < 2 ^ k * 2 ^ d) = (2 * (m mod 2 ^ k) < 2 ^ k)"
  proof -
    have "2 * ((m mod 2 ^ k) * 2 ^ d) = (2 * (m mod 2 ^ k)) * 2 ^ d" by simp
    then show ?thesis by (simp only: mult_less_cancel_right) simp
  qed
  have c2: "(2 ^ k * 2 ^ d < 2 * ((m mod 2 ^ k) * 2 ^ d)) = (2 ^ k < 2 * (m mod 2 ^ k))"
  proof -
    have "2 * ((m mod 2 ^ k) * 2 ^ d) = (2 * (m mod 2 ^ k)) * 2 ^ d" by simp
    then show ?thesis by (simp only: mult_less_cancel_right) simp
  qed
  show ?thesis unfolding rne_def Let_def p dv md c1 c2 by simp
qed

lemma rne_nonneg: "0 \<le> m \<Longrightarrow> 0 \<le> rne m k"
  using rne_bounds(1)[of m k] by (meson order_trans pos_imp_zdiv_nonneg_iff zero_less_numeral zero_less_power)

lemma pw_add: "(2::real) powi (a + b) = 2 powi a * 2 powi b"
  by (simp add: power_int_add)

lemma pw_nat: "(2::real) powi (int n) = 2 ^ n"
  by (rule power_int_of_nat)

lemma pw_pos: "0 < (2::real) powi a"
  by (simp add: zero_less_power_int)

lemma pw_mono: "a \<le> b \<Longrightarrow> (2::real) powi a \<le> 2 powi b"
  by (simp add: power_int_increasing)

lemma round53_val:
  "valof (round53 f) =
     real_of_int (rne (mantissa f) (nat (bitlen \<bar>mantissa f\<bar> - 53)))
       * 2 powi (exponent f + int (nat (bitlen \<bar>mantissa f\<bar> - 53)))"
  by (cases "bitlen \<bar>mantissa f\<bar> - 53 \<le> 0") (simp_all add: round53_def valof_def Let_def)

lemma round53_nonneg: "0 \<le> mantissa f \<Longrightarrow> 0 \<le> mantissa (round53 f)"
  by (simp add: round53_def Let_def rne_nonneg)

lemma valof_nonneg_iff: "0 \<le> valof f \<longleftrightarrow> 0 \<le> mantissa f"
proof
  assume "0 \<le> valof f"
  show "0 \<le> mantissa f"
  proof (rule ccontr)
    assume "\<not> 0 \<le> mantissa f"
    then have "real_of_int (mantissa f) < 0" by simp
    then have "valof f < 0" unfolding valof_def using pw_pos[of "exponent f"]
      by (rule mult_neg_pos)
    with \<open>0 \<le> valof f\<close> show False by simp
  qed
next
  assume "0 \<le> mantissa f"
  then show "0 \<le> valof f" unfolding valof_def using pw_pos[of "exponent f"] by simp
qed

lemma bitlen_pos_bounds:
  assumes "0 < m"
  shows "2 powi (bitlen m - 1) \<le> real_of_int m" "real_of_int m < 2 powi (bitlen m)"
proof -
  from bitlen_bounds[OF assms] have b: "2 ^ nat (bitlen m - 1) \<le> m" "m < 2 ^ nat (bitlen m)"
    by auto
  have p: "1 \<le> bitlen m" using assms by (simp add: bitlen_alt_def)
  have "(2::real) powi (bitlen m - 1) = 2 ^ nat (bitlen m - 1)"
    using p pw_nat[of "nat (bitlen m - 1)"] by simp
  also have "\<dots> \<le> real_of_int m" using b(1) by (metis of_int_le_iff of_int_numeral of_int_power)
  finally show "2 powi (bitlen m - 1) \<le> real_of_int m" .
  have "real_of_int m < 2 ^ nat (bitlen m)" using b(2) by (metis of_int_less_iff of_int_numeral of_int_power)
  also have "\<dots> = (2::real) powi (bitlen m)" using p pw_nat[of "nat (bitlen m)"] by simp
  finally show "real_of_int m < 2 powi (bitlen m)" .
qed

lemma rne_range:
  assumes "0 < m" "53 < bitlen m"
  shows "2 ^ 52 \<le> rne m (nat (bitlen m - 53))" "rne m (nat (bitlen m - 53)) \<le> 2 ^ 53"
proof -
  define k where "k = nat (bitlen m - 53)"
  from bitlen_bounds[OF assms(1)] have b: "2 ^ nat (bitlen m - 1) \<le> m" "m < 2 ^ nat (bitlen m)"
    by auto
  have "nat (bitlen m - 1) = 52 + k" "nat (bitlen m) = 53 + k" using assms(2) by (simp_all add: k_def)
  then have "(2^52) * 2 ^ k \<le> m" "m \<le> (2^53) * 2 ^ k"
    using b by (simp_all add: power_add)
  from rne_mono[OF this(1), of k] rne_mono[OF this(2), of k]
  show "2 ^ 52 \<le> rne m (nat (bitlen m - 53))" "rne m (nat (bitlen m - 53)) \<le> 2 ^ 53"
    unfolding k_def[symmetric] by simp_all
qed

lemma round53_bounds:
  assumes "0 < m"
  shows "2 powi (bitlen m + e - 1) \<le> valof (round53 (Float64 m e))"
    and "valof (round53 (Float64 m e)) \<le> 2 powi (bitlen m + e)"
proof -
  have am: "\<bar>m\<bar> = m" using assms by simp
  show "2 powi (bitlen m + e - 1) \<le> valof (round53 (Float64 m e))"
  proof (cases "bitlen m - 53 \<le> 0")
    case True
    have "2 powi (bitlen m + e - 1) = 2 powi (bitlen m - 1) * (2::real) powi e"
      using pw_add[of "bitlen m - 1" e] by (simp add: algebra_simps)
    also have "\<dots> \<le> real_of_int m * 2 powi e"
      using bitlen_pos_bounds(1)[OF assms] pw_pos[of e] by (simp add: mult_right_mono)
    finally show ?thesis using True by (simp add: round53_def valof_def Let_def am)
  next
    case False
    define k where "k = nat (bitlen m - 53)"
    have k: "int k = bitlen m - 53" using False by (simp add: k_def)
    have "2 powi (bitlen m + e - 1) = (2::real) ^ 52 * 2 powi (e + int k)"
    proof -
      have eq: "bitlen m + e - 1 = 52 + (e + int k)" using k by simp
      show ?thesis unfolding eq pw_add by simp
    qed
    also have "\<dots> \<le> real_of_int (rne m k) * 2 powi (e + int k)"
    proof -
      have "(2::real) ^ 52 \<le> real_of_int (rne m k)"
        using rne_range(1)[OF assms] False unfolding k_def[symmetric]
        by (metis not_le_imp_less diff_le_0_iff_le of_int_le_iff of_int_numeral of_int_power)
      then show ?thesis using pw_pos[of "e + int k"] by (simp add: mult_right_mono)
    qed
    finally show ?thesis by (simp add: round53_val am k_def)
  qed
  show "valof (round53 (Float64 m e)) \<le> 2 powi (bitlen m + e)"
  proof (cases "bitlen m - 53 \<le> 0")
    case True
    have "real_of_int m * 2 powi e \<le> 2 powi (bitlen m) * (2::real) powi e"
      using bitlen_pos_bounds(2)[OF assms] pw_pos[of e] by (simp add: mult_right_mono)
    also have "\<dots> = 2 powi (bitlen m + e)" by (simp add: pw_add)
    finally show ?thesis using True by (simp add: round53_def valof_def Let_def am)
  next
    case False
    define k where "k = nat (bitlen m - 53)"
    have k: "int k = bitlen m - 53" using False by (simp add: k_def)
    have "real_of_int (rne m k) * 2 powi (e + int k) \<le> (2::real) ^ 53 * 2 powi (e + int k)"
    proof -
      have "real_of_int (rne m k) \<le> (2::real) ^ 53"
        using rne_range(2)[OF assms] False unfolding k_def[symmetric]
        by (metis not_le_imp_less diff_le_0_iff_le of_int_le_iff of_int_numeral of_int_power)
      then show ?thesis using pw_pos[of "e + int k"] by (simp add: mult_right_mono)
    qed
    also have "\<dots> = 2 powi (bitlen m + e)"
    proof -
      have eq: "bitlen m + e = 53 + (e + int k)" using k by simp
      show ?thesis unfolding eq pw_add by simp
    qed
    finally show ?thesis by (simp add: round53_val am k_def)
  qed
qed

lemma round53_scaled:
  assumes m: "0 < m" and e0: "e0 \<le> e" "e0 \<le> bitlen m + e - 53"
  shows "valof (round53 (Float64 m e)) =
           real_of_int (rne (m * 2 ^ nat (e - e0)) (nat (bitlen m + e - 53 - e0)))
             * 2 powi (bitlen m + e - 53)"
proof -
  have am: "\<bar>m\<bar> = m" using m by simp
  define d where "d = nat (e - e0)"
  have d: "int d = e - e0" using e0 by (simp add: d_def)
  show ?thesis
  proof (cases "bitlen m - 53 \<le> 0")
    case True
    define j where "j = nat (53 - bitlen m)"
    have j: "int j = 53 - bitlen m" using True by (simp add: j_def)
    define n where "n = nat (bitlen m + e - 53 - e0)"
    have n: "int n = bitlen m + e - 53 - e0" using e0 by (simp add: n_def)
    have "int d = int j + int n" using d j n by simp
    then have dj: "d = j + n" by linarith
    have "rne (m * 2 ^ d) n = m * 2 ^ j"
      unfolding dj power_add mult.assoc[symmetric] by (rule rne_multiple)
    then have "real_of_int (rne (m * 2 ^ d) n) * 2 powi (bitlen m + e - 53)
                 = real_of_int m * (2 powi (int j) * 2 powi (bitlen m + e - 53))"
      by (simp add: pw_nat)
    also have "2 powi (int j) * (2::real) powi (bitlen m + e - 53) = 2 powi e"
      unfolding pw_add[symmetric] using j by simp
    finally show ?thesis
      using True unfolding d_def[symmetric] n_def[symmetric]
      by (simp add: round53_def valof_def Let_def am)
  next
    case False
    define k where "k = nat (bitlen m - 53)"
    have k: "int k = bitlen m - 53" using False by (simp add: k_def)
    have "int (nat (bitlen m + e - 53 - e0)) = int k + int d" using k d e0 by simp
    then have n: "nat (bitlen m + e - 53 - e0) = k + d" by linarith
    have ex: "e + int k = bitlen m + e - 53" using k by simp
    show ?thesis
      unfolding d_def[symmetric] n rne_scale
      by (simp add: round53_val am k_def[symmetric] ex)
  qed
qed

lemma round53_mono:
  assumes nn: "0 \<le> m1" "0 \<le> m2"
      and le: "real_of_int m1 * 2 powi e1 \<le> real_of_int m2 * 2 powi e2"
  shows "valof (round53 (Float64 m1 e1)) \<le> valof (round53 (Float64 m2 e2))"
proof (cases "m1 = 0")
  case True
  have "0 \<le> valof (round53 (Float64 m2 e2))"
    unfolding valof_nonneg_iff using nn(2) by (intro round53_nonneg) simp
  then show ?thesis using True by (simp add: round53_def valof_def Let_def)
next
  case False
  then have p1: "0 < m1" using nn(1) by simp
  have p2: "0 < m2"
  proof (rule ccontr)
    assume "\<not> 0 < m2"
    then have "m2 = 0" using nn(2) by simp
    moreover have "0 < real_of_int m1 * 2 powi e1" using p1 pw_pos[of e1] by simp
    ultimately show False using le by simp
  qed
  define B1 where "B1 = bitlen m1 + e1"
  define B2 where "B2 = bitlen m2 + e2"
  have lo: "2 powi (B1 - 1) \<le> real_of_int m1 * 2 powi e1"
  proof -
    have "2 powi (B1 - 1) = 2 powi (bitlen m1 - 1) * (2::real) powi e1"
      unfolding pw_add[symmetric] B1_def by (simp add: algebra_simps)
    also have "\<dots> \<le> real_of_int m1 * 2 powi e1"
      using bitlen_pos_bounds(1)[OF p1] pw_pos[of e1] by (simp add: mult_right_mono)
    finally show ?thesis .
  qed
  have hi: "real_of_int m2 * 2 powi e2 < 2 powi B2"
  proof -
    have "real_of_int m2 * 2 powi e2 < 2 powi (bitlen m2) * (2::real) powi e2"
      using bitlen_pos_bounds(2)[OF p2] pw_pos[of e2] by (simp add: mult_strict_right_mono)
    also have "\<dots> = 2 powi B2" unfolding pw_add[symmetric] B2_def by simp
    finally show ?thesis .
  qed
  have "(2::real) powi (B1 - 1) < 2 powi B2" using lo le hi by linarith
  then have B: "B1 \<le> B2"
    by (metis not_le pw_mono add_le_cancel_right diff_add_cancel linorder_not_less zle_add1_eq_le)
  show ?thesis
  proof (cases "B1 < B2")
    case True
    have "valof (round53 (Float64 m1 e1)) \<le> 2 powi B1"
      unfolding B1_def by (rule round53_bounds(2)[OF p1])
    also have "\<dots> \<le> 2 powi (B2 - 1)" using True by (intro pw_mono) simp
    also have "\<dots> \<le> valof (round53 (Float64 m2 e2))"
      unfolding B2_def by (rule round53_bounds(1)[OF p2])
    finally show ?thesis .
  next
    case False
    then have eq: "B1 = B2" using B by simp
    define g where "g = B1 - 53"
    define e0 where "e0 = min (min e1 e2) g"
    have g1: "bitlen m1 + e1 - 53 = g" by (simp add: g_def B1_def)
    have g2: "bitlen m2 + e2 - 53 = g" using eq by (simp add: g_def B2_def)
    have e0: "e0 \<le> e1" "e0 \<le> e2" "e0 \<le> g" by (simp_all add: e0_def)
    define M1 where "M1 = m1 * 2 ^ nat (e1 - e0)"
    define M2 where "M2 = m2 * 2 ^ nat (e2 - e0)"
    have v1: "real_of_int M1 * 2 powi e0 = real_of_int m1 * 2 powi e1"
    proof -
      have "(2::real) ^ nat (e1 - e0) * 2 powi e0 = 2 powi e1"
        unfolding pw_nat[symmetric] pw_add[symmetric] using e0(1) by simp
      then show ?thesis by (simp add: M1_def mult.assoc)
    qed
    have v2: "real_of_int M2 * 2 powi e0 = real_of_int m2 * 2 powi e2"
    proof -
      have "(2::real) ^ nat (e2 - e0) * 2 powi e0 = 2 powi e2"
        unfolding pw_nat[symmetric] pw_add[symmetric] using e0(2) by simp
      then show ?thesis by (simp add: M2_def mult.assoc)
    qed
    have "real_of_int M1 * 2 powi e0 \<le> real_of_int M2 * 2 powi e0" using le v1 v2 by simp
    then have "real_of_int M1 \<le> real_of_int M2" using pw_pos[of e0] by simp
    then have M: "M1 \<le> M2" by simp
    have r1: "valof (round53 (Float64 m1 e1)) = real_of_int (rne M1 (nat (g - e0))) * 2 powi g"
      using round53_scaled[OF p1 e0(1), unfolded g1, OF e0(3)] by (simp add: M1_def)
    have r2: "valof (round53 (Float64 m2 e2)) = real_of_int (rne M2 (nat (g - e0))) * 2 powi g"
      using round53_scaled[OF p2 e0(2), unfolded g2, OF e0(3)] by (simp add: M2_def)
    show ?thesis unfolding r1 r2 using rne_mono[OF M, of "nat (g - e0)"] pw_pos[of g]
      by (simp add: mult_right_mono)
  qed
qed

lemma round53_error: "\<bar>valof (round53 f) - valof f\<bar> \<le> \<bar>valof f\<bar> / 2 ^ 53"
proof (cases "bitlen \<bar>mantissa f\<bar> - 53 \<le> 0")
  case True
  then show ?thesis by (simp add: round53_def Let_def)
next
  case False
  define m where "m = mantissa f"
  define e where "e = exponent f"
  define k where "k = nat (bitlen \<bar>m\<bar> - 53)"
  have k: "int k = bitlen \<bar>m\<bar> - 53" using False by (simp add: k_def m_def)
  have pos: "0 < \<bar>m\<bar>"
  proof (rule ccontr)
    assume "\<not> 0 < \<bar>m\<bar>"
    then have "m = 0" by simp
    then show False using False by (simp add: m_def)
  qed
  from bitlen_bounds[OF pos] have "2 ^ nat (bitlen \<bar>m\<bar> - 1) \<le> \<bar>m\<bar>" by simp
  moreover have "nat (bitlen \<bar>m\<bar> - 1) = 52 + k" using k by simp
  ultimately have big: "(2::int) ^ 52 * 2 ^ k \<le> \<bar>m\<bar>" by (simp add: power_add)
  have "2 * \<bar>rne m k * 2 ^ k - m\<bar> \<le> 2 ^ k"
    using rne_error[of m k] unfolding abs_mult by simp
  then have "2 ^ 53 * \<bar>rne m k * 2 ^ k - m\<bar> \<le> 2 ^ 52 * 2 ^ k" by simp
  with big have "2 ^ 53 * \<bar>rne m k * 2 ^ k - m\<bar> \<le> \<bar>m\<bar>" by linarith
  then have "real_of_int (2 ^ 53 * \<bar>rne m k * 2 ^ k - m\<bar>) \<le> real_of_int \<bar>m\<bar>"
    by (rule of_int_le_iff[THEN iffD2])
  then have i: "\<bar>real_of_int (rne m k) * 2 ^ k - real_of_int m\<bar> \<le> \<bar>real_of_int m\<bar> / 2 ^ 53"
    by (simp add: field_simps)
  have v0: "valof (round53 f) = real_of_int (rne m k) * 2 powi (e + int k)"
    using round53_val[of f] by (simp add: m_def e_def k_def)
  have v1: "valof f = real_of_int m * 2 powi e" by (simp add: valof_def m_def e_def)
  have v: "valof (round53 f) - valof f = (real_of_int (rne m k) * 2 ^ k - real_of_int m) * 2 powi e"
    unfolding v0 v1 by (simp add: pw_add pw_nat algebra_simps)
  have "\<bar>valof (round53 f) - valof f\<bar> = \<bar>real_of_int (rne m k) * 2 ^ k - real_of_int m\<bar> * 2 powi e"
    unfolding v abs_mult using pw_pos[of e] by simp
  also have "\<dots> \<le> (\<bar>real_of_int m\<bar> / 2 ^ 53) * 2 powi e"
    using i pw_pos[of e] by (simp add: mult_right_mono)
  also have "\<dots> = \<bar>valof f\<bar> / 2 ^ 53"
    unfolding v1 abs_mult using pw_pos[of e] by simp
  finally show ?thesis .
qed

lemma truncate_float64_eq: "truncate_float64 f = truncate_real (valof f)"
proof (cases "0 \<le> exponent f")
  case True
  define n where "n = nat (exponent f)"
  have "(2::real) powi (exponent f) = 2 ^ n" using True pw_nat[of n] by (simp add: n_def)
  then have "valof f = real_of_int (mantissa f * 2 ^ n)" by (simp add: valof_def)
  then show ?thesis using True
    by (simp add: truncate_float64_def truncate_real_def n_def del: of_int_mult of_int_power)
next
  case False
  define n where "n = nat (- exponent f)"
  define m where "m = mantissa f"
  have "exponent f = - int n" using False by (simp add: n_def)
  then have "(2::real) powi (exponent f) = 1 / 2 ^ n"
    by (simp add: power_int_minus_divide pw_nat)
  then have v: "valof f = real_of_int m / real_of_int (2 ^ n)" by (simp add: valof_def m_def)
  have t: "truncate_float64 f = sgn m * (\<bar>m\<bar> div 2 ^ n)"
    using False by (simp add: truncate_float64_def m_def n_def)
  have pos: "0 < real_of_int (2 ^ n)" by simp
  show ?thesis
  proof (cases "0 \<le> m")
    case True
    then have "0 \<le> valof f" unfolding v using pos by (simp del: of_int_power)
    moreover have "\<lfloor>valof f\<rfloor> = m div 2 ^ n" unfolding v by (rule floor_divide_of_int_eq)
    moreover have "sgn m * (\<bar>m\<bar> div 2 ^ n) = m div 2 ^ n"
      using True by (cases "m = 0") (simp_all add: sgn_if)
    ultimately show ?thesis by (simp add: t truncate_real_def)
  next
    case F: False
    then have neg: "m < 0" by simp
    then have "valof f < 0" unfolding v using pos by (simp add: divide_neg_pos del: of_int_power)
    moreover have "\<lceil>valof f\<rceil> = - ((- m) div 2 ^ n)"
    proof -
      have "valof f = - (real_of_int (- m) / real_of_int (2 ^ n))" unfolding v by simp
      then have "\<lceil>valof f\<rceil> = - \<lfloor>real_of_int (- m) / real_of_int (2 ^ n)\<rfloor>"
        by (simp only: ceiling_minus)
      then show ?thesis by (simp only: floor_divide_of_int_eq)
    qed
    moreover have "sgn m * (\<bar>m\<bar> div 2 ^ n) = - ((- m) div 2 ^ n)"
      using neg by (simp add: sgn_if)
    ultimately show ?thesis by (simp add: t truncate_real_def)
  qed
qed

lemma truncate_real_mono: "x \<le> y \<Longrightarrow> truncate_real x \<le> truncate_real y"
  unfolding truncate_real_def
  by (auto simp: floor_mono ceiling_mono intro: order_trans[of "\<lceil>x\<rceil>" 0 "\<lfloor>y\<rfloor>"])

lemma truncate_real_close: "\<bar>real_of_int (truncate_real x) - x\<bar> < 1"
  unfolding truncate_real_def by (auto simp: abs_if) linarith+

lemma truncate_real_abs_le: "\<bar>real_of_int (truncate_real x)\<bar> \<le> \<bar>x\<bar>"
proof (cases "0 \<le> x")
  case True
  then have "0 \<le> \<lfloor>x\<rfloor>" by simp
  moreover have "real_of_int \<lfloor>x\<rfloor> \<le> x" by simp
  ultimately show ?thesis using True by (simp add: truncate_real_def)
next
  case False
  then have "\<lceil>x\<rceil> \<le> 0" by (simp add: ceiling_le_zero)
  moreover have "x \<le> real_of_int \<lceil>x\<rceil>" by simp
  ultimately show ?thesis using False by (simp add: truncate_real_def)
qed

lemma truncate_real_nonneg: "0 \<le> x \<Longrightarrow> 0 \<le> truncate_real x"
  unfolding truncate_real_def by simp

lemma int64_of_float64_sint:
  assumes "- (2 ^ 63) \<le> truncate_float64 f" "truncate_float64 f < 2 ^ 63"
  shows "sint (int64_of_float64 f) = truncate_float64 f"
  using assms by (simp add: int64_of_float64_def sint_sbintrunc' signed_take_bit_int_eq_self)

lemma vsize_sint:
  fixes n m :: go_int
  assumes "- (2 ^ 63) \<le> spec_vsize (sint n) (sint m)" "spec_vsize (sint n) (sint m) < 2 ^ 63"
  shows "sint (10 + 68 * n + 31 * m) = spec_vsize (sint n) (sint m)"
proof -
  have "10 + 68 * n + 31 * m = word_of_int (spec_vsize (sint n) (sint m))"
    by (simp add: spec_vsize_def)
  then have "sint (10 + 68 * n + 31 * m) = signed_take_bit 63 (spec_vsize (sint n) (sint m))"
    by (simp only: sint_sbintrunc') simp
  then show ?thesis using assms by (simp add: signed_take_bit_int_eq_self)
qed

lemma EstimateFee_sint:
  fixes n m :: go_int
  assumes "- (2 ^ 63) \<le> spec_vsize (sint n) (sint m)" "spec_vsize (sint n) (sint m) < 2 ^ 63"
      and "t = truncate_float64 (float64_mul (float64_of_int (spec_vsize (sint n) (sint m))) r)"
      and "- (2 ^ 63) \<le> t" "t + 1 < 2 ^ 63"
  shows "sint (EstimateFee n m r) = t + 1"
proof -
  have c: "sint (int64_of_float64 (float64_mul (float64_of_int (spec_vsize (sint n) (sint m))) r)) = t"
    unfolding assms(3) using assms(4,5) unfolding assms(3) by (intro int64_of_float64_sint) auto
  have "EstimateFee n m r
          = int64_of_float64 (float64_mul (float64_of_int (spec_vsize (sint n) (sint m))) r) + 1"
    by (simp add: EstimateFee_def Let_def vsize_sint[OF assms(1,2)])
  then show ?thesis using c assms(4,5) by (simp add: sint_add_in_range)
qed

lemma valof_float64_mul_exact:
  "valof (Float64 (mantissa a * mantissa b) (exponent a + exponent b)) = valof a * valof b"
  by (simp add: valof_def pw_add)

lemma float64_mul_error:
  "\<bar>valof (float64_mul a b) - valof a * valof b\<bar> \<le> \<bar>valof a * valof b\<bar> / 2 ^ 53"
  unfolding float64_mul_def
  using round53_error[of "Float64 (mantissa a * mantissa b) (exponent a + exponent b)"]
  by (simp only: valof_float64_mul_exact)

lemma float64_of_int_exact:
  assumes "\<bar>v\<bar> < 2 ^ 53"
  shows "float64_of_int v = Float64 v 0"
proof -
  have "bitlen \<bar>v\<bar> \<le> 53" using assms by (simp add: bitlen_le_iff_power)
  then show ?thesis by (simp add: float64_of_int_def round53_def Let_def)
qed

lemma float64_of_int_error:
  "\<bar>valof (float64_of_int v) - real_of_int v\<bar> \<le> \<bar>real_of_int v\<bar> / 2 ^ 53"
  using round53_error[of "Float64 v 0"] by (simp add: float64_of_int_def valof_def)

lemma round53_mantissa_le:
  assumes "0 < mantissa f"
  shows "mantissa (round53 f) \<le> 2 ^ 53"
proof (cases "bitlen \<bar>mantissa f\<bar> - 53 \<le> 0")
  case True
  have am: "\<bar>mantissa f\<bar> = mantissa f" using assms by simp
  have "mantissa f < 2 ^ nat (bitlen (mantissa f))" using bitlen_bounds[OF assms] by simp
  also have "\<dots> \<le> 2 ^ 53" using True am by (intro power_increasing) simp_all
  finally show ?thesis using True by (simp add: round53_def Let_def)
next
  case False
  have am: "\<bar>mantissa f\<bar> = mantissa f" using assms by simp
  have "53 < bitlen (mantissa f)" using False am by simp
  from rne_range(2)[OF assms this] show ?thesis using False by (simp add: round53_def Let_def am)
qed

lemma round53_below_2p63:
  assumes "valof (round53 f) < 2 ^ 63"
  shows "truncate_real (valof (round53 f)) + 1 < 2 ^ 63"
proof -
  define g where "g = round53 f"
  define M where "M = mantissa g"
  define E where "E = exponent g"
  have v: "valof g = real_of_int M * 2 powi E" by (simp add: valof_def M_def E_def)
  have lt: "valof g < 2 ^ 63" using assms by (simp add: g_def)
  have main: "truncate_real (valof g) + 1 < 2 ^ 63"
  proof (cases "valof g < 2 ^ 62")
    case True
    have "truncate_real (valof g) \<le> truncate_real (2 ^ 62)"
      using True by (intro truncate_real_mono) simp
    moreover have "truncate_real (2 ^ 62) = 2 ^ 62"
    proof -
      have "(2::real) ^ 62 = real_of_int (2 ^ 62)" by simp
      then show ?thesis unfolding truncate_real_def by (simp only: floor_of_int) simp
    qed
    ultimately show ?thesis by simp
  next
    case False
    then have big: "2 ^ 62 \<le> valof g" by simp
    have Mpos: "0 < M"
    proof (rule ccontr)
      assume "\<not> 0 < M"
      then have "real_of_int M \<le> 0" by simp
      then have "valof g \<le> 0" unfolding v using pw_pos[of E]
        by (simp add: mult_le_0_iff)
      with big show False by simp
    qed
    have fpos: "0 < mantissa f"
    proof (rule ccontr)
      assume "\<not> 0 < mantissa f"
      then have "mantissa f \<le> 0" by simp
      then have "\<not> 0 < valof f \<and> mantissa (round53 f) \<le> 0"
      proof (cases "bitlen \<bar>mantissa f\<bar> - 53 \<le> 0")
        case True
        then show ?thesis using \<open>mantissa f \<le> 0\<close> pw_pos[of "exponent f"]
          by (simp add: round53_def Let_def valof_def mult_le_0_iff not_less)
      next
        case F: False
        have "rne (mantissa f) (nat (bitlen \<bar>mantissa f\<bar> - 53))
                \<le> rne 0 (nat (bitlen \<bar>mantissa f\<bar> - 53))"
          using \<open>mantissa f \<le> 0\<close> by (rule rne_mono)
        also have "\<dots> = 0" by (simp add: rne_def Let_def)
        finally show ?thesis using F \<open>mantissa f \<le> 0\<close> pw_pos[of "exponent f"]
          by (simp add: round53_def Let_def valof_def mult_le_0_iff not_less)
      qed
      then show False using Mpos by (simp add: M_def g_def)
    qed
    have Mle: "M \<le> 2 ^ 53" unfolding M_def g_def by (rule round53_mantissa_le[OF fpos])
    have E9: "9 \<le> E"
    proof (rule ccontr)
      assume "\<not> 9 \<le> E"
      then have "E \<le> 8" by simp
      then have "(2::real) powi E \<le> 2 powi 8" by (rule pw_mono)
      then have "real_of_int M * 2 powi E \<le> 2 ^ 53 * 2 ^ 8"
        using Mle Mpos pw_pos[of E]
        by (intro mult_mono) (simp_all add: of_int_le_iff[of M "2^53", where 'a=real, simplified])
      with big v show False by simp
    qed
    define d where "d = nat (E - 9)"
    have Ed: "E = 9 + int d" using E9 by (simp add: d_def)
    define q where "q = M * 2 ^ d"
    have vq: "valof g = real_of_int (512 * q)"
      unfolding v Ed pw_add pw_nat q_def by simp
    have "real_of_int (512 * q) < real_of_int (2 ^ 63)" using lt vq by simp
    then have "512 * q < 2 ^ 63" by (simp only: of_int_less_iff)
    then have "q < 2 ^ 54" by simp
    then have "512 * q + 1 < 2 ^ 63" by simp
    moreover have "truncate_real (valof g) = 512 * q"
      unfolding vq truncate_real_def by (simp only: floor_of_int ceiling_of_int) simp
    ultimately show ?thesis by simp
  qed
  then show ?thesis by (simp add: g_def)
qed

lemma float64_mul_below_2p63:
  assumes "valof (float64_mul a b) < 2 ^ 63"
  shows "truncate_real (valof (float64_mul a b)) + 1 < 2 ^ 63"
  using assms unfolding float64_mul_def by (rule round53_below_2p63)

lemma truncate_real_lower:
  assumes "- (2 ^ 63) \<le> y"
  shows "- (2 ^ 63) \<le> truncate_real y"
proof -
  have "truncate_real (- (2 ^ 63)) \<le> truncate_real y" using assms by (rule truncate_real_mono)
  moreover have "truncate_real (- (2 ^ 63)) = - (2 ^ 63)"
  proof -
    have "- ((2::real) ^ 63) = real_of_int (- (2 ^ 63))" by simp
    then show ?thesis unfolding truncate_real_def by (simp only: floor_of_int ceiling_of_int) simp
  qed
  ultimately show ?thesis by simp
qed

lemma demo_rate_val: "valof demo_rate = 5404319552844595 / 18014398509481984"
  by (simp add: demo_rate_def valof_def power_int_minus_divide)

lemma demo_product:
  "float64_mul (float64_of_int 140) demo_rate = Float64 5910974510923776 (- 47)"
  by code_simp

lemma demo_product_val: "valof (Float64 5910974510923776 (- 47)) = 42"
  by (simp add: valof_def power_int_minus_divide)

lemma huge_rate_val: "valof huge_rate = 6724873095247260 * 2 ^ 944"
  by (simp add: huge_rate_def valof_def)

lemma huge_rate_large: "(2::real) ^ 64 < valof huge_rate"
proof -
  have "(2::real) ^ 64 \<le> 2 ^ 944" by (rule power_increasing) simp_all
  also have "\<dots> < 6724873095247260 * 2 ^ 944" by simp
  finally show ?thesis by (simp only: huge_rate_val)
qed

section \<open>The claims\<close>

subsection \<open>C1: the change amount decides the insufficient-funds failure\<close>

text \<open>
  With no UTXOs the pipeline need not fail: for the amount \<open>- 1000\<close>, and for the
  amount \<open>2 ^ 63 - 1\<close> (where \<open>0 - amount - fee\<close> wraps around), the change is positive
  and a transaction with no input and two outputs is signed and serialised.
\<close>

theorem zero_utxos_counterexample:
  "GetUTXOs (demo_world [] (Float64 1 0)) (address demo_wallet) = Inr []
   \<and> CreateTransaction (demo_world [] (Float64 1 0)) demo_wallet ''tb1qpayee'' (- 1000) = Inr [0, 2]
   \<and> CreateTransaction (demo_world [] (Float64 1 0)) demo_wallet ''tb1qpayee'' 9223372036854775807
       = Inr [0, 2]"
  by code_simp

text \<open>
  C1, as amended. Once the payment output is added, the UTXOs are selected and the fee
  rate is fetched, let \<open>changeAmount = totalValue - amount - fee\<close> in int64. Then
  CreateTransaction fails with \<open>NoChangeToSend\<close> exactly when \<open>changeAmount \<le> 0\<close>; in that
  case the failure comes before signTransaction and no transaction is returned, whatever
  the signing primitives are. When \<open>0 < changeAmount\<close>, the inputs are added and the
  change output to the wallet's own address is added next: the pipeline goes on with that
  transaction, or fails with the error of decoding that address. With no UTXOs for the
  address the selection is empty with total 0, and the pipeline fails with
  \<open>NoChangeToSend\<close> whenever \<open>amount + fee\<close> is not negative and at most \<open>2 ^ 63\<close>.
\<close>

theorem change_decides_insufficient_funds:
  assumes out: "addOutput w (NewMsgTx TxVersion) receiverAddress amount = Inr tx1"
      and sel: "selectUTXOs w (address wallet) amount = Inr (selectedUTXOs, totalValue)"
      and rate: "GetFeeRate w = Inr feeRate"
      and fee: "fee = EstimateFee (of_nat (length selectedUTXOs)) 2 feeRate"
      and change: "changeAmount = totalValue - amount - fee"
  shows "(CreateTransaction w wallet receiverAddress amount = Inl NoChangeToSend
            \<longleftrightarrow> changeAmount \<le>s 0)
       \<and> (changeAmount \<le>s 0 \<longrightarrow>
            CreateTransaction_unsigned w wallet receiverAddress amount = Inl NoChangeToSend
          \<and> (\<forall>n h s p l.
                CreateTransaction
                  (w\<lparr>txscript_NewTxSigHashes := n, txscript_CalcWitnessSigHash := h,
                     ecdsa_Sign_Serialize := s, PubKey_SerializeCompressed := p,
                     txscript_SignatureScript := l\<rparr>) wallet receiverAddress amount
                = Inl NoChangeToSend))
       \<and> (0 <s changeAmount \<longrightarrow>
            (\<exists>tx2. addInputs tx1 selectedUTXOs = Inr tx2
               \<and> CreateTransaction_unsigned w wallet receiverAddress amount =
                   (case addOutput w tx2 (address wallet) changeAmount of
                      Inl err \<Rightarrow> Inl err
                    | Inr tx3 \<Rightarrow> Inr (tx3, selectedUTXOs))))
       \<and> (GetUTXOs w (address wallet) = Inr [] \<and> sort_Slice_contract (sort_Slice w)
            \<and> 0 \<le> sint amount + sint fee \<and> sint amount + sint fee \<le> 2^63 \<longrightarrow>
            selectedUTXOs = [] \<and> totalValue = 0
          \<and> CreateTransaction w wallet receiverAddress amount = Inl NoChangeToSend)"
proof -
  note reached = CreateTransaction_unsigned_reached[OF out sel rate, folded fee, folded change]
  have neg: "(\<not> 0 <s changeAmount) = (changeAmount \<le>s 0)"
    by (simp add: word_sle_eq word_sless_alt not_less)
  have A: "CreateTransaction_unsigned w wallet receiverAddress amount = Inl NoChangeToSend
             \<longleftrightarrow> changeAmount \<le>s 0"
    using neg by (auto simp: reached Let_def addOutput_not_NoChange split: sum.splits)
  have B: "CreateTransaction w' wallet receiverAddress amount = Inl NoChangeToSend"
    if "changeAmount \<le>s 0"
       "w' = w\<lparr>txscript_NewTxSigHashes := n, txscript_CalcWitnessSigHash := h,
               ecdsa_Sign_Serialize := s, PubKey_SerializeCompressed := p,
               txscript_SignatureScript := l\<rparr>" for w' n h s p l
    using that A by (simp add: CreateTransaction_NoChange_iff unsigned_ignores_signer)
  have C: "\<exists>tx2. addInputs tx1 selectedUTXOs = Inr tx2
               \<and> CreateTransaction_unsigned w wallet receiverAddress amount =
                   (case addOutput w tx2 (address wallet) changeAmount of
                      Inl err \<Rightarrow> Inl err
                    | Inr tx3 \<Rightarrow> Inr (tx3, selectedUTXOs))"
    if "0 <s changeAmount"
    using that by (simp add: reached Let_def addInputs_eq)
  have D: "selectedUTXOs = [] \<and> totalValue = 0
          \<and> CreateTransaction w wallet receiverAddress amount = Inl NoChangeToSend"
    if "GetUTXOs w (address wallet) = Inr []" "sort_Slice_contract (sort_Slice w)"
       "0 \<le> sint amount + sint fee" "sint amount + sint fee \<le> 2^63"
  proof -
    have "mset (sort_Slice w by_value_desc []) = mset ([] :: UTXO list)"
      by (rule contract_by_value(1)[OF that(2)])
    then have "select_sorted (sort_Slice w) [] amount = ([], 0)"
      by (simp add: select_sorted_def)
    with sel that(1) have e: "selectedUTXOs = []" "totalValue = 0"
      by (auto simp: selectUTXOs_def)
    have "changeAmount \<le>s 0"
      unfolding change e by (rule neg_sum_sle_zero[OF that(3,4)])
    then show ?thesis using e A by (simp add: CreateTransaction_NoChange_iff)
  qed
  show ?thesis using A B C D by (simp add: CreateTransaction_NoChange_iff)
qed

theorem change_decides_insufficient_funds_witness:
  "CreateTransaction (demo_world [] (Float64 1 0)) demo_wallet ''tb1qpayee'' 1200 = Inl NoChangeToSend
   \<and> output_values (CreateTransaction_unsigned (demo_world [demo_utxo 0 10000 p2wpkh_script] (Float64 1 0))
        demo_wallet ''tb1qpayee'' 1200) = Inr [1200, 8659]"
proof -
  let ?w0 = "demo_world [] (Float64 1 0)"
  let ?u = "demo_utxo 0 10000 p2wpkh_script"
  let ?w1 = "demo_world [?u] (Float64 1 0)"
  have o0: "addOutput ?w0 (NewMsgTx TxVersion) ''tb1qpayee'' 1200
              = Inr (AddTxOut (NewMsgTx TxVersion)
                  (NewTxOut 1200 (0x00 # 0x14 # take 20 (map of_char ''tb1qpayee'' @ replicate 20 0x00))))"
    by (simp add: addOutput_def demo_world_def)
  have s0: "selectUTXOs ?w0 (address demo_wallet) 1200 = Inr ([], 0)"
    by (simp add: selectUTXOs_def demo_world_def select_sorted_def insertionSort_def)
  have r0: "GetFeeRate ?w0 = Inr (Float64 1 0)" by (simp add: demo_world_def)
  have g0: "GetUTXOs ?w0 (address demo_wallet) = Inr []" by (simp add: demo_world_def)
  have c0: "sort_Slice_contract (sort_Slice ?w0)"
    by (simp add: demo_world_def insertionSort_contract)
  have f0: "EstimateFee 0 2 (Float64 1 0) = 73" by code_simp
  have A: "CreateTransaction ?w0 demo_wallet ''tb1qpayee'' 1200 = Inl NoChangeToSend"
    using change_decides_insufficient_funds[OF o0 s0 r0 refl refl] g0 c0 by (simp add: f0)
  have o1: "addOutput ?w1 (NewMsgTx TxVersion) ''tb1qpayee'' 1200
              = Inr (AddTxOut (NewMsgTx TxVersion)
                  (NewTxOut 1200 (0x00 # 0x14 # take 20 (map of_char ''tb1qpayee'' @ replicate 20 0x00))))"
    by (simp add: addOutput_def demo_world_def)
  have s1: "selectUTXOs ?w1 (address demo_wallet) 1200 = Inr ([?u], 10000)"
    by code_simp
  have r1: "GetFeeRate ?w1 = Inr (Float64 1 0)" by (simp add: demo_world_def)
  have f1: "EstimateFee (of_nat (length [?u])) 2 (Float64 1 0) = 141" by code_simp
  have pos: "(0::int64) <s 10000 - 1200 - EstimateFee (of_nat (length [?u])) 2 (Float64 1 0)"
    unfolding f1 by (simp add: word_sless_alt)
  from change_decides_insufficient_funds[OF o1 s1 r1 refl refl] pos
  obtain tx2 where tx2: "addInputs (AddTxOut (NewMsgTx TxVersion)
                  (NewTxOut 1200 (0x00 # 0x14 # take 20 (map of_char ''tb1qpayee'' @ replicate 20 0x00)))) [?u] = Inr tx2"
     "CreateTransaction_unsigned ?w1 demo_wallet ''tb1qpayee'' 1200 =
        (case addOutput ?w1 tx2 (address demo_wallet) (10000 - 1200 - 141) of
           Inl err \<Rightarrow> Inl err | Inr tx3 \<Rightarrow> Inr (tx3, [?u]))"
    unfolding f1 by blast
  have B: "output_values (CreateTransaction_unsigned ?w1 demo_wallet ''tb1qpayee'' 1200) = Inr [1200, 8659]"
    using tx2 by (auto simp: output_values_def addOutput_def demo_world_def demo_wallet_def
          addInputs_eq AddTxOut_def NewTxOut_def NewMsgTx_def)
  show ?thesis using A B by simp
qed

subsection \<open>C2: the outputs of an assembled transaction\<close>

text \<open>
  The payment output is not checked: with the amount 0 the pipeline reaches signing and
  succeeds with the outputs 0 and 9859.
\<close>

theorem zero_amount_output_counterexample:
  "output_values (CreateTransaction_unsigned (demo_world [demo_utxo 0 10000 p2wpkh_script] (Float64 1 0))
      demo_wallet ''tb1qpayee'' 0) = Inr [0, 9859]
   \<and> CreateTransaction (demo_world [demo_utxo 0 10000 p2wpkh_script] (Float64 1 0))
      demo_wallet ''tb1qpayee'' 0 = Inr [1, 2]
   \<and> \<not> (0 :: int64) <s 0"
  by code_simp

text \<open>
  C2, as amended. When CreateTransaction reaches signTransaction, the transaction has
  exactly two outputs, first the payment of \<open>amount\<close> to the script of the receiver's
  address, then the change to the script of the wallet's own address; the sum of the
  output values plus the fee is the total of the selected UTXOs in int64; the change is
  strictly positive, and so is every output when the amount is. In the integers the
  balance holds when the selected values are not negative, their total fits in int64,
  the amount and the fee are not negative and \<open>amount + fee\<close> fits in int64.
\<close>

theorem assembled_outputs_balance:
  assumes ok: "CreateTransaction_unsigned w wallet receiverAddress amount = Inr (tx, selectedUTXOs)"
  shows "\<exists>payAddr payScript ownAddr changeScript totalValue feeRate fee changeAmount.
           btcutil_DecodeAddress w receiverAddress = Inr payAddr
         \<and> txscript_PayToAddrScript w payAddr = Inr payScript
         \<and> btcutil_DecodeAddress w (address wallet) = Inr ownAddr
         \<and> txscript_PayToAddrScript w ownAddr = Inr changeScript
         \<and> selectUTXOs w (address wallet) amount = Inr (selectedUTXOs, totalValue)
         \<and> totalValue = sum_list (map Value selectedUTXOs)
         \<and> GetFeeRate w = Inr feeRate
         \<and> fee = EstimateFee (of_nat (length selectedUTXOs)) 2 feeRate
         \<and> changeAmount = totalValue - amount - fee
         \<and> TxOut tx = [NewTxOut amount payScript, NewTxOut changeAmount changeScript]
         \<and> sum_list (map TxOut_Value (TxOut tx)) + fee = totalValue
         \<and> 0 <s changeAmount
         \<and> (0 <s amount \<longrightarrow> (\<forall>out\<in>set (TxOut tx). 0 <s TxOut_Value out))
         \<and> ((\<forall>u\<in>set selectedUTXOs. 0 \<le>s Value u) \<and> utxo_total selectedUTXOs < 2^63
              \<and> 0 \<le> sint amount \<and> 0 \<le> sint fee \<and> sint amount + sint fee < 2^63 \<longrightarrow>
              sum_list (map (\<lambda>out. sint (TxOut_Value out)) (TxOut tx)) + sint fee
                = utxo_total selectedUTXOs)"
proof -
  from CreateTransaction_unsigned_Inr[OF ok] obtain tx1 totalValue feeRate where r:
    "addOutput w (NewMsgTx TxVersion) receiverAddress amount = Inr tx1"
    "selectUTXOs w (address wallet) amount = Inr (selectedUTXOs, totalValue)"
    "GetFeeRate w = Inr feeRate"
    "0 <s totalValue - amount - EstimateFee (of_nat (length selectedUTXOs)) 2 feeRate"
    "addOutput w (tx1\<lparr>TxIn := TxIn tx1 @ map (\<lambda>u. NewTxIn (OutPoint u) [] []) selectedUTXOs\<rparr>)
       (address wallet) (totalValue - amount - EstimateFee (of_nat (length selectedUTXOs)) 2 feeRate)
     = Inr tx"
    by blast
  define fee where "fee = EstimateFee (of_nat (length selectedUTXOs)) 2 feeRate"
  define changeAmount where "changeAmount = totalValue - amount - fee"
  from r(1) obtain payAddr payScript where pay:
    "btcutil_DecodeAddress w receiverAddress = Inr payAddr"
    "txscript_PayToAddrScript w payAddr = Inr payScript"
    "tx1 = AddTxOut (NewMsgTx TxVersion) (NewTxOut amount payScript)"
    unfolding addOutput_Inr by blast
  from r(5) obtain ownAddr changeScript where own:
    "btcutil_DecodeAddress w (address wallet) = Inr ownAddr"
    "txscript_PayToAddrScript w ownAddr = Inr changeScript"
    "tx = AddTxOut (tx1\<lparr>TxIn := TxIn tx1 @ map (\<lambda>u. NewTxIn (OutPoint u) [] []) selectedUTXOs\<rparr>)
            (NewTxOut changeAmount changeScript)"
    unfolding addOutput_Inr fee_def[symmetric] changeAmount_def[symmetric] by blast
  have outs: "TxOut tx = [NewTxOut amount payScript, NewTxOut changeAmount changeScript]"
    by (simp add: own(3) pay(3) AddTxOut_def NewMsgTx_def)
  have tot: "totalValue = sum_list (map Value selectedUTXOs)"
    using r(2) select_sorted_total unfolding selectUTXOs_Inr by (metis fst_conv snd_conv)
  have pos: "0 <s changeAmount" using r(4) by (simp add: changeAmount_def fee_def)
  have bal: "sum_list (map TxOut_Value (TxOut tx)) + fee = totalValue"
    by (simp add: outs NewTxOut_def changeAmount_def)
  have allpos: "\<forall>out\<in>set (TxOut tx). 0 <s TxOut_Value out" if "0 <s amount"
    using that pos by (simp add: outs NewTxOut_def)
  have ibal: "sum_list (map (\<lambda>out. sint (TxOut_Value out)) (TxOut tx)) + sint fee
                = utxo_total selectedUTXOs"
    if "\<forall>u\<in>set selectedUTXOs. 0 \<le>s Value u" "utxo_total selectedUTXOs < 2^63"
       "0 \<le> sint amount" "0 \<le> sint fee" "sint amount + sint fee < 2^63"
  proof -
    have T: "sint totalValue = utxo_total selectedUTXOs"
      unfolding tot by (rule sint_sum_list_Value[OF that(1,2)])
    have "0 \<le> sint totalValue" unfolding T by (rule utxo_total_nonneg[OF that(1)])
    then have "sint changeAmount = sint totalValue - sint amount - sint fee"
      unfolding changeAmount_def by (rule change_in_range[OF _ that(3,4,5)])
    then show ?thesis by (simp add: outs NewTxOut_def T)
  qed
  show ?thesis
    using pay(1,2) own(1,2) r(2,3) tot fee_def changeAmount_def outs bal pos allpos ibal
    by blast
qed

theorem assembled_outputs_balance_witness:
  "\<exists>tx. CreateTransaction_unsigned (demo_world [demo_utxo 0 10000 p2wpkh_script] (Float64 1 0))
           demo_wallet ''tb1qpayee'' 1200 = Inr (tx, [demo_utxo 0 10000 p2wpkh_script])
      \<and> (\<forall>out\<in>set (TxOut tx). 0 <s TxOut_Value out)
      \<and> sum_list (map (\<lambda>out. sint (TxOut_Value out)) (TxOut tx)) + 141 = 10000"
proof -
  let ?u = "demo_utxo 0 10000 p2wpkh_script"
  let ?w = "demo_world [?u] (Float64 1 0)"
  define tx where "tx = fst (projr (CreateTransaction_unsigned ?w demo_wallet ''tb1qpayee'' 1200))"
  have ok: "CreateTransaction_unsigned ?w demo_wallet ''tb1qpayee'' 1200 = Inr (tx, [?u])"
    unfolding tx_def by (rule demo_unsigned)
  from assembled_outputs_balance[OF ok] obtain feeRate fee where f:
    "GetFeeRate ?w = Inr feeRate"
    "fee = EstimateFee (of_nat (length [?u])) 2 feeRate"
    "0 <s (1200::int64) \<longrightarrow> (\<forall>out\<in>set (TxOut tx). 0 <s TxOut_Value out)"
    "(\<forall>u\<in>set [?u]. 0 \<le>s Value u) \<and> utxo_total [?u] < 2^63
              \<and> 0 \<le> sint (1200::int64) \<and> 0 \<le> sint fee \<and> sint (1200::int64) + sint fee < 2^63 \<longrightarrow>
              sum_list (map (\<lambda>out. sint (TxOut_Value out)) (TxOut tx)) + sint fee
                = utxo_total [?u]"
    by blast
  have e: "EstimateFee (of_nat (length [?u])) 2 (Float64 1 0) = 141" by code_simp
  have "feeRate = Float64 1 0" using f(1) by (simp add: demo_world_def)
  then have fee: "fee = 141" unfolding f(2) using e by simp
  have p: "0 <s (1200::int64)" by (simp add: word_sless_alt)
  have h: "(\<forall>u\<in>set [?u]. 0 \<le>s Value u) \<and> utxo_total [?u] < 2^63"
    by (simp add: demo_utxo_def word_sle_eq)
  have t: "utxo_total [?u] = 10000" by (simp add: demo_utxo_def)
  show ?thesis using ok f(3,4) p h t by (auto simp: fee)
qed

subsection \<open>C3: the signer dispatches on the script type\<close>

text \<open>
  C3. For inputs built by addInputs from the UTXO list the signer receives, and a signing
  run that succeeds: input \<open>i\<close> spends the outpoint of \<open>utxos ! i\<close>; when the locking
  script of \<open>utxos ! i\<close> is a segwit script, the input ends with an empty signature script
  and the two-element witness of the serialised signature followed by the sighash-type
  byte, and the compressed public key, the signature being over the witness signature
  hash of a transaction with the same outputs and outpoints; otherwise it ends with the
  script the legacy signing primitive returned, which is not empty when that primitive
  never returns an empty script, and with no witness.
\<close>

theorem sign_dispatch_by_script_type:
  assumes ins: "addInputs tx0 utxos = Inr tx" and fresh: "TxIn tx0 = []"
      and signed: "signTransaction w tx privateKeyBytes utxos = Inr tx'"
      and i: "i < length utxos"
  shows "length (TxIn tx') = length utxos
       \<and> PreviousOutPoint (TxIn tx' ! i) = OutPoint (utxos ! i)
       \<and> (IsSegwitScript (PkScript (utxos ! i)) \<longrightarrow>
            SignatureScript (TxIn tx' ! i) = []
          \<and> (\<exists>txi hash.
                TxOut txi = TxOut tx
              \<and> map PreviousOutPoint (TxIn txi) = map PreviousOutPoint (TxIn tx)
              \<and> txscript_CalcWitnessSigHash w (PkScript (utxos ! i))
                   (txscript_NewTxSigHashes w txi (FetchPrevOutput utxos)) txi i (Value (utxos ! i))
                 = Inr hash
              \<and> Witness (TxIn tx' ! i)
                 = [ecdsa_Sign_Serialize w privateKeyBytes hash @ [SigHashAll],
                    PubKey_SerializeCompressed w privateKeyBytes]))
       \<and> (\<not> IsSegwitScript (PkScript (utxos ! i)) \<longrightarrow>
            (\<exists>txi.
                TxOut txi = TxOut tx
              \<and> map PreviousOutPoint (TxIn txi) = map PreviousOutPoint (TxIn tx)
              \<and> txscript_SignatureScript w txi i (PkScript (utxos ! i)) privateKeyBytes
                 = Inr (SignatureScript (TxIn tx' ! i)))
          \<and> ((\<forall>t n script key s. txscript_SignatureScript w t n script key = Inr s \<longrightarrow> s \<noteq> [])
                \<longrightarrow> SignatureScript (TxIn tx' ! i) \<noteq> [])
          \<and> Witness (TxIn tx' ! i) = [])"
proof -
  have txin: "TxIn tx = map (\<lambda>u. NewTxIn (OutPoint u) [] []) utxos"
    using ins fresh by (auto simp: addInputs_eq)
  then have len: "length (TxIn tx) = length utxos" by simp
  have loop: "sign_loop w privateKeyBytes utxos [0..<length (TxIn tx)] tx = Inr tx'"
    using signed by (simp add: signTransaction_def)
  have len': "length (TxIn tx') = length utxos" using sign_loop_frame[OF loop] len by simp
  have po: "PreviousOutPoint (TxIn tx' ! i) = OutPoint (utxos ! i)"
  proof -
    have "map PreviousOutPoint (TxIn tx') ! i = map PreviousOutPoint (TxIn tx) ! i"
      using sign_loop_frame[OF loop] by simp
    then show ?thesis using i len len' by (simp add: txin NewTxIn_def)
  qed
  have "i \<in> set [0..<length (TxIn tx)]" using i len by simp
  from sign_loop_at[OF loop this] obtain txi txi' where t:
    "sign_input w privateKeyBytes utxos i txi = Inr txi'" "TxIn tx' ! i = TxIn txi' ! i"
    "TxIn txi ! i = TxIn tx ! i" "TxOut txi = TxOut tx"
    "length (TxIn txi) = length (TxIn tx)"
    "map PreviousOutPoint (TxIn txi) = map PreviousOutPoint (TxIn tx)"
    by auto
  have before: "TxIn txi ! i = NewTxIn (OutPoint (utxos ! i)) [] []"
    using t(3) i by (simp add: txin)
  have ilen: "i < length (TxIn txi)" using t(5) len i by simp
  have seg: "SignatureScript (TxIn tx' ! i) = []
          \<and> (\<exists>txi hash.
                TxOut txi = TxOut tx
              \<and> map PreviousOutPoint (TxIn txi) = map PreviousOutPoint (TxIn tx)
              \<and> txscript_CalcWitnessSigHash w (PkScript (utxos ! i))
                   (txscript_NewTxSigHashes w txi (FetchPrevOutput utxos)) txi i (Value (utxos ! i))
                 = Inr hash
              \<and> Witness (TxIn tx' ! i)
                 = [ecdsa_Sign_Serialize w privateKeyBytes hash @ [SigHashAll],
                    PubKey_SerializeCompressed w privateKeyBytes])"
    if "IsSegwitScript (PkScript (utxos ! i))"
  proof -
    from t(1) that i obtain hash where h:
      "txscript_CalcWitnessSigHash w (PkScript (utxos ! i))
         (txscript_NewTxSigHashes w txi (FetchPrevOutput utxos)) txi i (Value (utxos ! i)) = Inr hash"
      "txi' = set_Witness txi i [ecdsa_Sign_Serialize w privateKeyBytes hash @ [SigHashAll],
                                  PubKey_SerializeCompressed w privateKeyBytes]"
      by (auto simp: sign_input_def Let_def split: sum.splits)
    have "TxIn tx' ! i = (NewTxIn (OutPoint (utxos ! i)) [] [])
            \<lparr>Witness := [ecdsa_Sign_Serialize w privateKeyBytes hash @ [SigHashAll],
                         PubKey_SerializeCompressed w privateKeyBytes]\<rparr>"
      using t(2) h(2) ilen before by (simp add: set_Witness_def)
    then show ?thesis using h(1) t(4,6) by (auto simp: NewTxIn_def)
  qed
  have leg: "(\<exists>txi.
                TxOut txi = TxOut tx
              \<and> map PreviousOutPoint (TxIn txi) = map PreviousOutPoint (TxIn tx)
              \<and> txscript_SignatureScript w txi i (PkScript (utxos ! i)) privateKeyBytes
                 = Inr (SignatureScript (TxIn tx' ! i)))
          \<and> ((\<forall>t n script key s. txscript_SignatureScript w t n script key = Inr s \<longrightarrow> s \<noteq> [])
                \<longrightarrow> SignatureScript (TxIn tx' ! i) \<noteq> [])
          \<and> Witness (TxIn tx' ! i) = []"
    if "\<not> IsSegwitScript (PkScript (utxos ! i))"
  proof -
    from t(1) that i obtain sig where h:
      "txscript_SignatureScript w txi i (PkScript (utxos ! i)) privateKeyBytes = Inr sig"
      "txi' = set_SignatureScript txi i sig"
      by (auto simp: sign_input_def Let_def split: sum.splits)
    have "TxIn tx' ! i = (NewTxIn (OutPoint (utxos ! i)) [] [])\<lparr>SignatureScript := sig\<rparr>"
      using t(2) h(2) ilen before by (simp add: set_SignatureScript_def)
    then have e: "SignatureScript (TxIn tx' ! i) = sig" "Witness (TxIn tx' ! i) = []"
      by (simp_all add: NewTxIn_def)
    show ?thesis using h(1) t(4,6) unfolding e by blast
  qed
  show ?thesis using len' po seg leg by blast
qed

theorem sign_dispatch_by_script_type_witness:
  "\<exists>tx'. signTransaction (demo_world demo_pair (Float64 1 0))
             (projr (addInputs (NewMsgTx TxVersion) demo_pair)) (privateKey demo_wallet) demo_pair
           = Inr tx'
      \<and> SignatureScript (TxIn tx' ! 0) = [] \<and> length (Witness (TxIn tx' ! 0)) = 2
      \<and> SignatureScript (TxIn tx' ! 1) \<noteq> [] \<and> Witness (TxIn tx' ! 1) = []"
proof -
  let ?w = "demo_world demo_pair (Float64 1 0)"
  define tx where "tx = projr (addInputs (NewMsgTx TxVersion) demo_pair)"
  define tx' where "tx' = projr (signTransaction ?w tx (privateKey demo_wallet) demo_pair)"
  have ins: "addInputs (NewMsgTx TxVersion) demo_pair = Inr tx"
    by (simp add: tx_def addInputs_eq)
  have fresh: "TxIn (NewMsgTx TxVersion) = []" by (simp add: NewMsgTx_def)
  have signed: "signTransaction ?w tx (privateKey demo_wallet) demo_pair = Inr tx'"
    unfolding tx'_def tx_def by (rule demo_signed)
  have legacy: "\<forall>t n script key s. txscript_SignatureScript ?w t n script key = Inr s \<longrightarrow> s \<noteq> []"
    by (auto simp: demo_world_def)
  have i0: "0 < length demo_pair" and i1: "1 < length demo_pair" by (simp_all add: demo_pair_def)
  have seg: "IsSegwitScript (PkScript (demo_pair ! 0))"
    by (simp add: demo_pair_def demo_utxo_def p2wpkh_script_def IsSegwitScript_def)
  have leg: "\<not> IsSegwitScript (PkScript (demo_pair ! 1))"
    by (simp add: demo_pair_def demo_utxo_def p2pkh_script_def IsSegwitScript_def)
  from sign_dispatch_by_script_type[OF ins fresh signed i0] seg
  have A: "SignatureScript (TxIn tx' ! 0) = [] \<and> length (Witness (TxIn tx' ! 0)) = 2" by auto
  from sign_dispatch_by_script_type[OF ins fresh signed i1] leg legacy
  have B: "SignatureScript (TxIn tx' ! 1) \<noteq> [] \<and> Witness (TxIn tx' ! 1) = []" by blast
  show ?thesis using signed A B unfolding tx_def by blast
qed

subsection \<open>C4: what the selection covers\<close>




subsection \<open>C5: largest-first greedy selection\<close>




subsection \<open>C6: selection under a permutation of the input\<close>

text \<open>
  The library sort keeps equal elements in the order it met them: two UTXOs of equal
  value are selected in the order of the input list, so the two orders of the list give
  selections of different UTXOs.
\<close>

theorem select_permutation_counterexample:
  "mset [demo_utxo 0 1000 p2wpkh_script, demo_utxo 1 1000 p2wpkh_script]
     = mset [demo_utxo 1 1000 p2wpkh_script, demo_utxo 0 1000 p2wpkh_script]
   \<and> select_sorted insertionSort [demo_utxo 0 1000 p2wpkh_script, demo_utxo 1 1000 p2wpkh_script] 500
       = ([demo_utxo 0 1000 p2wpkh_script], 1000)
   \<and> select_sorted insertionSort [demo_utxo 1 1000 p2wpkh_script, demo_utxo 0 1000 p2wpkh_script] 500
       = ([demo_utxo 1 1000 p2wpkh_script], 1000)
   \<and> demo_utxo 0 1000 p2wpkh_script \<noteq> demo_utxo 1 1000 p2wpkh_script"
  by (simp add: select_sorted_def insertionSort_def by_value_desc_def demo_utxo_def
        demo_outpoint_def word_sless_alt word_sle_eq)

text \<open>
  C6, as amended. For a list and a permutation of it, the selections have the same
  sequence of values and the same total; they are the same sequence of UTXOs when the
  values of the list are pairwise distinct.
\<close>

theorem select_permutation_values:
  assumes srt: "sort_Slice_contract srt" and perm: "mset xs = mset ys"
  shows "map Value (fst (select_sorted srt xs T)) = map Value (fst (select_sorted srt ys T))
       \<and> snd (select_sorted srt xs T) = snd (select_sorted srt ys T)
       \<and> (distinct (map Value xs) \<longrightarrow> select_sorted srt xs T = select_sorted srt ys T)"
proof -
  let ?as = "srt by_value_desc xs" and ?bs = "srt by_value_desc ys"
  have ms: "mset ?as = mset ?bs"
    using contract_by_value(1)[OF srt] perm by simp
  have vals: "map Value ?as = map Value ?bs"
    by (rule sorted_desc_values_unique[OF ms contract_by_value(2)[OF srt] contract_by_value(2)[OF srt]])
  have "?as = ?bs" if "distinct (map Value xs)"
  proof -
    have "mset (map Value ?as) = mset (map Value xs)"
      using contract_by_value(1)[OF srt, of xs] by simp
    then have "distinct (map Value ?as)" using that by (metis mset_eq_imp_distinct_iff)
    then show ?thesis by (rule distinct_values_eq[OF ms vals])
  qed
  then show ?thesis
    using select_loop_values[OF vals, of "[]" "[]" T 0] by (auto simp: select_sorted_def)
qed

theorem select_permutation_values_witness:
  "mset demo_utxos = mset (rev demo_utxos)
   \<and> select_sorted insertionSort demo_utxos 1200 = select_sorted insertionSort (rev demo_utxos) 1200"
proof -
  have p: "mset demo_utxos = mset (rev demo_utxos)" by simp
  have d: "distinct (map Value demo_utxos)" by (simp add: demo_utxos_def demo_utxo_def)
  from select_permutation_values[OF insertionSort_contract p, of 1200] d p
  show ?thesis by blast
qed

subsection \<open>C7: the estimated fee\<close>

text \<open>
  The fee is not the rounded product for every count and rate. At the fee rate \<open>1e300\<close>
  one input and two outputs (virtual size 140) have a product above \<open>2 ^ 64\<close>, and the
  conversion to int64 gives \<open>- (2 ^ 63)\<close>: the fee is \<open>- 9223372036854775807\<close>. With
  135637824071393761 inputs and two outputs the virtual size is above \<open>2 ^ 63\<close> and wraps
  around in int: at the fee rate 1 the fee is again \<open>- 9223372036854775807\<close>.
\<close>

theorem EstimateFee_out_of_range_counterexample:
  "is_float64 huge_rate
   \<and> spec_vsize (sint (1::go_int)) (sint (2::go_int)) = 140
   \<and> 2 ^ 64 < 140 * valof huge_rate
   \<and> sint (EstimateFee 1 2 huge_rate) = - 9223372036854775807
   \<and> 2 ^ 64 < \<bar>real_of_int (sint (EstimateFee 1 2 huge_rate)) - 1 - 140 * valof huge_rate\<bar>
   \<and> is_float64 (Float64 1 0) \<and> valof (Float64 1 0) = 1
   \<and> sint (135637824071393761 :: go_int) = 135637824071393761
   \<and> spec_vsize (sint (135637824071393761 :: go_int)) (sint (2::go_int)) = 9223372036854775820
   \<and> sint (EstimateFee 135637824071393761 2 (Float64 1 0)) = - 9223372036854775807"
proof -
  have fl: "is_float64 huge_rate" by (simp add: huge_rate_def is_float64_def)
  have v: "spec_vsize (sint (1::go_int)) (sint (2::go_int)) = 140" by (simp add: spec_vsize_def)
  have big: "2 ^ 64 < 140 * valof huge_rate" using huge_rate_large by simp
  have e: "sint (EstimateFee 1 2 huge_rate) = - 9223372036854775807" by code_simp
  have d: "2 ^ 64 < \<bar>real_of_int (sint (EstimateFee 1 2 huge_rate)) - 1 - 140 * valof huge_rate\<bar>"
    unfolding e using big by simp
  have one: "is_float64 (Float64 1 0)" "valof (Float64 1 0) = 1"
    by (simp_all add: is_float64_def valof_def)
  have n: "sint (135637824071393761 :: go_int) = 135637824071393761" by simp
  have v2: "spec_vsize (sint (135637824071393761 :: go_int)) (sint (2::go_int)) = 9223372036854775820"
    by (simp add: spec_vsize_def)
  have e2: "sint (EstimateFee 135637824071393761 2 (Float64 1 0)) = - 9223372036854775807"
    by code_simp
  show ?thesis using fl v big e d one n v2 e2 by simp
qed

text \<open>
  C7, as amended. Let the virtual size \<open>10 + 68 * numInputs + 31 * numOutputs\<close> fit in
  int, and let \<open>y\<close>, the binary64 product of the virtual size (converted to binary64) and
  the fee rate, lie between \<open>- (2 ^ 63)\<close> and \<open>2 ^ 63\<close>, the latter excluded. Then
  EstimateFee is \<open>y\<close> rounded towards zero to an integer, plus 1. Here \<open>y\<close> is the exact
  product \<open>x\<close> rounded to binary64: it is within \<open>3 * \<bar>x\<bar> / 2 ^ 53\<close> of \<open>x\<close>, and within
  \<open>\<bar>x\<bar> / 2 ^ 53\<close> when the virtual size is below \<open>2 ^ 53\<close> in absolute value (its
  conversion is then exact); so the fee minus 1 is an integer within
  \<open>1 + 3 * \<bar>x\<bar> / 2 ^ 53\<close> of \<open>x\<close>.
\<close>

theorem EstimateFee_is_rounded_product:
  fixes n m :: go_int
  assumes fl: "is_float64 r"
      and size: "- (2 ^ 63) \<le> spec_vsize (sint n) (sint m)" "spec_vsize (sint n) (sint m) < 2 ^ 63"
      and x: "x = real_of_int (spec_vsize (sint n) (sint m)) * valof r"
      and y: "y = valof (float64_mul (float64_of_int (spec_vsize (sint n) (sint m))) r)"
      and range: "- (2 ^ 63) \<le> y" "y < 2 ^ 63"
  shows "\<bar>y - x\<bar> \<le> 3 * \<bar>x\<bar> / 2 ^ 53
       \<and> (\<bar>spec_vsize (sint n) (sint m)\<bar> < 2 ^ 53 \<longrightarrow> \<bar>y - x\<bar> \<le> \<bar>x\<bar> / 2 ^ 53)
       \<and> sint (EstimateFee n m r) = truncate_real y + 1
       \<and> \<bar>real_of_int (sint (EstimateFee n m r)) - 1 - x\<bar> < 1 + 3 * \<bar>x\<bar> / 2 ^ 53"
proof -
  define V where "V = spec_vsize (sint n) (sint m)"
  define a where "a = valof (float64_of_int V)"
  define t where "t = truncate_float64 (float64_mul (float64_of_int V) r)"
  have xV: "x = real_of_int V * valof r" by (simp add: x V_def)
  have yV: "y = valof (float64_mul (float64_of_int V) r)" by (simp add: y V_def)
  have ea: "\<bar>a - real_of_int V\<bar> \<le> \<bar>real_of_int V\<bar> / 2 ^ 53"
    unfolding a_def by (rule float64_of_int_error)
  have ey: "\<bar>y - a * valof r\<bar> \<le> \<bar>a * valof r\<bar> / 2 ^ 53"
    unfolding yV a_def by (rule float64_mul_error)
  have d1: "\<bar>a * valof r - x\<bar> \<le> \<bar>x\<bar> / 2 ^ 53"
  proof -
    have "\<bar>a * valof r - x\<bar> = \<bar>a - real_of_int V\<bar> * \<bar>valof r\<bar>"
      unfolding xV by (simp add: abs_mult[symmetric] algebra_simps)
    also have "\<dots> \<le> (\<bar>real_of_int V\<bar> / 2 ^ 53) * \<bar>valof r\<bar>"
      using ea by (intro mult_right_mono) simp_all
    also have "\<dots> = \<bar>x\<bar> / 2 ^ 53" unfolding xV by (simp add: abs_mult)
    finally show ?thesis .
  qed
  have d2: "\<bar>a * valof r\<bar> \<le> 2 * \<bar>x\<bar>"
  proof -
    have "\<bar>a * valof r\<bar> \<le> \<bar>x\<bar> + \<bar>x\<bar> / 2 ^ 53" using d1 by linarith
    also have "\<dots> \<le> 2 * \<bar>x\<bar>" by (simp add: field_simps)
    finally show ?thesis .
  qed
  have A: "\<bar>y - x\<bar> \<le> 3 * \<bar>x\<bar> / 2 ^ 53"
  proof -
    have "\<bar>y - x\<bar> \<le> \<bar>y - a * valof r\<bar> + \<bar>a * valof r - x\<bar>" by linarith
    also have "\<dots> \<le> \<bar>a * valof r\<bar> / 2 ^ 53 + \<bar>x\<bar> / 2 ^ 53" using ey d1 by linarith
    also have "\<dots> \<le> (2 * \<bar>x\<bar>) / 2 ^ 53 + \<bar>x\<bar> / 2 ^ 53"
      using d2 by (simp add: divide_right_mono)
    also have "\<dots> = 3 * \<bar>x\<bar> / 2 ^ 53" by simp
    finally show ?thesis .
  qed
  have B: "\<bar>y - x\<bar> \<le> \<bar>x\<bar> / 2 ^ 53" if "\<bar>spec_vsize (sint n) (sint m)\<bar> < 2 ^ 53"
  proof -
    have "float64_of_int V = Float64 V 0" using that unfolding V_def by (rule float64_of_int_exact)
    then have "a = real_of_int V" by (simp add: a_def valof_def)
    then show ?thesis using ey by (simp add: xV)
  qed
  have ty: "t = truncate_real y" by (simp add: t_def yV truncate_float64_eq)
  have tlo: "- (2 ^ 63) \<le> t" unfolding ty using range(1) by (rule truncate_real_lower)
  have thi: "t + 1 < 2 ^ 63"
    unfolding ty yV using range(2) unfolding yV by (rule float64_mul_below_2p63)
  have fee: "sint (EstimateFee n m r) = t + 1"
    by (rule EstimateFee_sint[OF size _ tlo thi]) (simp add: t_def V_def)
  have c: "\<bar>real_of_int t - y\<bar> < 1" unfolding ty by (rule truncate_real_close)
  have "\<bar>real_of_int (sint (EstimateFee n m r)) - 1 - x\<bar> = \<bar>(real_of_int t - y) + (y - x)\<bar>"
    by (simp add: fee)
  also have "\<dots> \<le> \<bar>real_of_int t - y\<bar> + \<bar>y - x\<bar>" by (rule abs_triangle_ineq)
  also have "\<dots> < 1 + 3 * \<bar>x\<bar> / 2 ^ 53" using c A by linarith
  finally have D: "\<bar>real_of_int (sint (EstimateFee n m r)) - 1 - x\<bar> < 1 + 3 * \<bar>x\<bar> / 2 ^ 53" .
  show ?thesis using A B D fee ty by simp
qed

theorem EstimateFee_is_rounded_product_witness:
  "sint (EstimateFee 1 2 demo_rate) = 43
   \<and> valof (float64_mul (float64_of_int 140) demo_rate) = 42
   \<and> truncate_real 42 + 1 = 43
   \<and> \<bar>42 - 140 * valof demo_rate\<bar> \<le> \<bar>140 * valof demo_rate\<bar> / 2 ^ 53
   \<and> \<bar>real_of_int (sint (EstimateFee 1 2 demo_rate)) - 1 - 140 * valof demo_rate\<bar>
       < 1 + 3 * \<bar>140 * valof demo_rate\<bar> / 2 ^ 53"
proof -
  have fl: "is_float64 demo_rate" by (simp add: demo_rate_def is_float64_def)
  have v: "spec_vsize (sint (1::go_int)) (sint (2::go_int)) = 140" by (simp add: spec_vsize_def)
  have y: "valof (float64_mul (float64_of_int 140) demo_rate) = 42"
    by (simp only: demo_product demo_product_val)
  have size: "- (2 ^ 63) \<le> spec_vsize (sint (1::go_int)) (sint (2::go_int))"
             "spec_vsize (sint (1::go_int)) (sint (2::go_int)) < 2 ^ 63"
             "\<bar>spec_vsize (sint (1::go_int)) (sint (2::go_int))\<bar> < 2 ^ 53"
    unfolding v by simp_all
  have range: "- (2 ^ 63) \<le> valof (float64_mul (float64_of_int (spec_vsize (sint (1::go_int)) (sint (2::go_int)))) demo_rate)"
              "valof (float64_mul (float64_of_int (spec_vsize (sint (1::go_int)) (sint (2::go_int)))) demo_rate) < 2 ^ 63"
    unfolding v y by simp_all
  note T = EstimateFee_is_rounded_product[OF fl size(1,2) refl refl range]
  have e: "sint (EstimateFee 1 2 demo_rate) = truncate_real 42 + 1"
    using T unfolding v y by blast
  have t: "truncate_real 42 = 42" by (simp add: truncate_real_def)
  have a: "\<bar>42 - 140 * valof demo_rate\<bar> \<le> \<bar>140 * valof demo_rate\<bar> / 2 ^ 53"
    using T size(3) unfolding v y of_int_numeral by blast
  have b: "\<bar>real_of_int (sint (EstimateFee 1 2 demo_rate)) - 1 - 140 * valof demo_rate\<bar>
       < 1 + 3 * \<bar>140 * valof demo_rate\<bar> / 2 ^ 53"
    using T unfolding v y of_int_numeral by blast
  show ?thesis using e t y a b by simp
qed

subsection \<open>C8: the estimated fee is monotone\<close>

text \<open>
  Raising the fee rate can lower the fee. For one input and two outputs the fee is 141 at
  the fee rate 1 and \<open>- 9223372036854775807\<close> at the fee rate \<open>1e300\<close>, where the product
  no longer fits in int64.
\<close>

theorem EstimateFee_monotone_counterexample:
  "is_float64 (Float64 1 0) \<and> is_float64 huge_rate
   \<and> 0 \<le> valof (Float64 1 0) \<and> valof (Float64 1 0) \<le> valof huge_rate
   \<and> sint (EstimateFee 1 2 (Float64 1 0)) = 141
   \<and> sint (EstimateFee 1 2 huge_rate) = - 9223372036854775807
   \<and> \<not> (EstimateFee 1 2 (Float64 1 0) \<le>s EstimateFee 1 2 huge_rate)"
proof -
  have fl: "is_float64 (Float64 1 0)" "is_float64 huge_rate"
    by (simp_all add: huge_rate_def is_float64_def)
  have one: "valof (Float64 1 0) = 1" by (simp add: valof_def)
  have le: "valof (Float64 1 0) \<le> valof huge_rate" unfolding one using huge_rate_large by simp
  have e1: "sint (EstimateFee 1 2 (Float64 1 0)) = 141" by code_simp
  have e2: "sint (EstimateFee 1 2 huge_rate) = - 9223372036854775807" by code_simp
  have n: "\<not> (EstimateFee 1 2 (Float64 1 0) \<le>s EstimateFee 1 2 huge_rate)"
    by (simp add: word_sle_eq e1 e2)
  show ?thesis using fl one le e1 e2 n by simp
qed

text \<open>
  C8, as amended. For counts and fee rates that are not negative, raising the number of
  inputs, the number of outputs or the fee rate never lowers the fee, as long as the
  larger virtual size fits in int and the binary64 product of the larger virtual size
  and the larger fee rate is below \<open>2 ^ 63\<close>.
\<close>

theorem EstimateFee_monotone:
  fixes n n' m m' :: go_int
  assumes n: "0 \<le> sint n" "sint n \<le> sint n'"
      and m: "0 \<le> sint m" "sint m \<le> sint m'"
      and fl: "is_float64 r" "is_float64 r'"
      and r: "0 \<le> valof r" "valof r \<le> valof r'"
      and size: "spec_vsize (sint n') (sint m') < 2 ^ 63"
      and range: "valof (float64_mul (float64_of_int (spec_vsize (sint n') (sint m'))) r') < 2 ^ 63"
  shows "EstimateFee n m r \<le>s EstimateFee n' m' r'"
proof -
  define V where "V = spec_vsize (sint n) (sint m)"
  define V' where "V' = spec_vsize (sint n') (sint m')"
  define a where "a = float64_of_int V"
  define a' where "a' = float64_of_int V'"
  define p where "p = float64_mul a r"
  define p' where "p' = float64_mul a' r'"
  have V: "0 \<le> V" "V \<le> V'" using n m by (simp_all add: V_def V'_def spec_vsize_def)
  have V'nn: "0 \<le> V'" using V by simp
  have ma: "0 \<le> mantissa a" "0 \<le> mantissa a'"
    unfolding a_def a'_def float64_of_int_def using V V'nn by (auto intro!: round53_nonneg)
  have mr: "0 \<le> mantissa r" "0 \<le> mantissa r'" using r by (simp_all add: valof_nonneg_iff[symmetric])
  have va: "valof a \<le> valof a'"
    unfolding a_def a'_def float64_of_int_def using V V'nn by (intro round53_mono) simp_all
  have vann: "0 \<le> valof a" using ma(1) by (simp add: valof_nonneg_iff)
  have prod: "valof a * valof r \<le> valof a' * valof r'"
    using va vann r by (intro mult_mono) simp_all
  have vp: "valof p \<le> valof p'"
    unfolding p_def p'_def float64_mul_def
    using ma mr prod by (intro round53_mono) (simp_all add: valof_def pw_add mult_ac)
  have pnn: "0 \<le> valof p"
    unfolding p_def float64_mul_def valof_nonneg_iff
    using ma(1) mr(1) by (intro round53_nonneg) simp
  define t where "t = truncate_float64 p"
  define t' where "t' = truncate_float64 p'"
  have tt: "t \<le> t'" unfolding t_def t'_def truncate_float64_eq using vp by (rule truncate_real_mono)
  have tnn: "0 \<le> t" unfolding t_def truncate_float64_eq using pnn by (rule truncate_real_nonneg)
  have t'b: "t' + 1 < 2 ^ 63"
    unfolding t'_def p'_def a'_def V'_def truncate_float64_eq
    using range by (rule float64_mul_below_2p63)
  have Vb: "- (2 ^ 63) \<le> spec_vsize (sint n) (sint m)" "spec_vsize (sint n) (sint m) < 2 ^ 63"
    using V size unfolding V_def V'_def by simp_all
  have V'b: "- (2 ^ 63) \<le> spec_vsize (sint n') (sint m')"
    using V'nn unfolding V'_def by simp
  have f: "sint (EstimateFee n m r) = t + 1"
    using tnn tt t'b
    by (intro EstimateFee_sint[OF Vb]) (simp_all add: t_def p_def a_def V_def)
  have f': "sint (EstimateFee n' m' r') = t' + 1"
    using tnn tt t'b
    by (intro EstimateFee_sint[OF V'b size]) (simp_all add: t'_def p'_def a'_def V'_def)
  show ?thesis using tt by (simp add: word_sle_eq f f')
qed

theorem EstimateFee_monotone_witness:
  "EstimateFee 1 2 demo_rate \<le>s EstimateFee 2 2 (Float64 1 0)
   \<and> EstimateFee 1 2 demo_rate \<le>s EstimateFee 1 3 demo_rate"
proof -
  have fl: "is_float64 demo_rate" "is_float64 (Float64 1 0)"
    by (simp_all add: demo_rate_def is_float64_def)
  have one: "valof (Float64 1 0) = 1" by (simp add: valof_def)
  have s: "sint (1::go_int) = 1" "sint (2::go_int) = 2" "sint (3::go_int) = 3" by simp_all
  have p1: "valof (float64_mul (float64_of_int 208) (Float64 1 0)) < 9223372036854775808"
  proof -
    have "float64_mul (float64_of_int 208) (Float64 1 0) = Float64 208 0" by code_simp
    then show ?thesis by (simp add: valof_def)
  qed
  have p2: "valof (float64_mul (float64_of_int 171) demo_rate) < 9223372036854775808"
  proof -
    have "float64_mul (float64_of_int 171) demo_rate = Float64 7219833152628326 (- 47)"
      by code_simp
    then show ?thesis by (simp add: valof_def power_int_minus_divide)
  qed
  have A: "EstimateFee 1 2 demo_rate \<le>s EstimateFee 2 2 (Float64 1 0)"
    by (rule EstimateFee_monotone[OF _ _ _ _ fl])
       (simp_all add: s spec_vsize_def demo_rate_val one p1)
  have B: "EstimateFee 1 2 demo_rate \<le>s EstimateFee 1 3 demo_rate"
    by (rule EstimateFee_monotone[OF _ _ _ _ fl(1) fl(1)])
       (simp_all add: s spec_vsize_def demo_rate_val p2)
  show ?thesis using A B by simp
qed

subsection \<open>C9: inputs and UTXOs are aligned at the signer\<close>

text \<open>
  C9. The transaction and the UTXO list CreateTransaction hands to signTransaction have
  as many inputs as UTXOs, input \<open>i\<close> spends the outpoint of \<open>utxos ! i\<close>, the signer's
  access \<open>utxos ! i\<close> is never out of range, and CreateTransaction goes on with what
  signTransaction returns for that transaction and that list. When signing succeeds,
  the signed transaction has the same number of inputs, input \<open>i\<close> still spends the
  outpoint of \<open>utxos ! i\<close>, and, the outpoints of the selection being distinct, the
  previous output fetched for that outpoint is the value and the script of \<open>utxos ! i\<close>.
  Input \<open>i\<close> is signed against that output: for a segwit script its witness is the
  signature, with the wallet's key, over the witness signature hash computed at index
  \<open>i\<close> for the script and the value of \<open>utxos ! i\<close>, followed by the public key; otherwise
  its signature script is the one the legacy primitive returns at index \<open>i\<close> for the
  script of \<open>utxos ! i\<close> and the wallet's key.
\<close>

theorem signer_inputs_aligned:
  assumes ok: "CreateTransaction_unsigned w wallet receiverAddress amount = Inr (tx, selectedUTXOs)"
  shows "length (TxIn tx) = length selectedUTXOs
       \<and> (\<forall>i<length selectedUTXOs. PreviousOutPoint (TxIn tx ! i) = OutPoint (selectedUTXOs ! i))
       \<and> (\<forall>j. signTransaction w tx (privateKey wallet) selectedUTXOs \<noteq> Inl (IndexOutOfRange j))
       \<and> CreateTransaction w wallet receiverAddress amount =
           (case signTransaction w tx (privateKey wallet) selectedUTXOs of
              Inl err \<Rightarrow> Inl err
            | Inr tx' \<Rightarrow>
                (case MsgTx_Serialize w tx' of
                   Inl err \<Rightarrow> Inl (SerializeFailed err)
                 | Inr buf \<Rightarrow> Inr buf))
       \<and> (\<forall>tx' i. signTransaction w tx (privateKey wallet) selectedUTXOs = Inr tx'
                   \<and> i < length selectedUTXOs \<longrightarrow>
             length (TxIn tx') = length selectedUTXOs
           \<and> PreviousOutPoint (TxIn tx' ! i) = OutPoint (selectedUTXOs ! i)
           \<and> (distinct (map OutPoint selectedUTXOs) \<longrightarrow>
                FetchPrevOutput selectedUTXOs (PreviousOutPoint (TxIn tx' ! i))
                  = Some \<lparr>TxOut_Value = Value (selectedUTXOs ! i),
                          TxOut_PkScript = PkScript (selectedUTXOs ! i)\<rparr>)
           \<and> (\<exists>txi. TxOut txi = TxOut tx
                  \<and> map PreviousOutPoint (TxIn txi) = map OutPoint selectedUTXOs
                  \<and> (if IsSegwitScript (PkScript (selectedUTXOs ! i))
                      then (\<exists>hash.
                              txscript_CalcWitnessSigHash w (PkScript (selectedUTXOs ! i))
                                (txscript_NewTxSigHashes w txi (FetchPrevOutput selectedUTXOs)) txi i
                                (Value (selectedUTXOs ! i)) = Inr hash
                            \<and> Witness (TxIn tx' ! i)
                                = [ecdsa_Sign_Serialize w (privateKey wallet) hash @ [SigHashAll],
                                   PubKey_SerializeCompressed w (privateKey wallet)])
                          \<and> SignatureScript (TxIn tx' ! i) = []
                      else txscript_SignatureScript w txi i (PkScript (selectedUTXOs ! i))
                             (privateKey wallet) = Inr (SignatureScript (TxIn tx' ! i))
                          \<and> Witness (TxIn tx' ! i) = [])))"
proof -
  from CreateTransaction_unsigned_Inr[OF ok] obtain tx1 totalValue feeRate where r:
    "addOutput w (NewMsgTx TxVersion) receiverAddress amount = Inr tx1"
    "addOutput w (tx1\<lparr>TxIn := TxIn tx1 @ map (\<lambda>u. NewTxIn (OutPoint u) [] []) selectedUTXOs\<rparr>)
       (address wallet) (totalValue - amount - EstimateFee (of_nat (length selectedUTXOs)) 2 feeRate)
     = Inr tx"
    by blast
  have ins: "TxIn tx = map (\<lambda>u. NewTxIn (OutPoint u) [] []) selectedUTXOs"
    using r unfolding addOutput_Inr by (auto simp: AddTxOut_def NewMsgTx_def)
  have len: "length (TxIn tx) = length selectedUTXOs" by (simp add: ins)
  have al: "\<forall>i<length selectedUTXOs. PreviousOutPoint (TxIn tx ! i) = OutPoint (selectedUTXOs ! i)"
    by (simp add: ins NewTxIn_def)
  have np: "signTransaction w tx (privateKey wallet) selectedUTXOs \<noteq> Inl (IndexOutOfRange j)" for j
    unfolding signTransaction_def by (rule sign_loop_not_IndexOutOfRange) (simp add: len)
  have ct: "CreateTransaction w wallet receiverAddress amount =
           (case signTransaction w tx (privateKey wallet) selectedUTXOs of
              Inl err \<Rightarrow> Inl err
            | Inr tx' \<Rightarrow>
                (case MsgTx_Serialize w tx' of
                   Inl err \<Rightarrow> Inl (SerializeFailed err)
                 | Inr buf \<Rightarrow> Inr buf))"
    by (simp add: CreateTransaction_def ok)
  have sg: "length (TxIn tx') = length selectedUTXOs
           \<and> PreviousOutPoint (TxIn tx' ! i) = OutPoint (selectedUTXOs ! i)
           \<and> (distinct (map OutPoint selectedUTXOs) \<longrightarrow>
                FetchPrevOutput selectedUTXOs (PreviousOutPoint (TxIn tx' ! i))
                  = Some \<lparr>TxOut_Value = Value (selectedUTXOs ! i),
                          TxOut_PkScript = PkScript (selectedUTXOs ! i)\<rparr>)
           \<and> (\<exists>txi. TxOut txi = TxOut tx
                  \<and> map PreviousOutPoint (TxIn txi) = map OutPoint selectedUTXOs
                  \<and> (if IsSegwitScript (PkScript (selectedUTXOs ! i))
                      then (\<exists>hash.
                              txscript_CalcWitnessSigHash w (PkScript (selectedUTXOs ! i))
                                (txscript_NewTxSigHashes w txi (FetchPrevOutput selectedUTXOs)) txi i
                                (Value (selectedUTXOs ! i)) = Inr hash
                            \<and> Witness (TxIn tx' ! i)
                                = [ecdsa_Sign_Serialize w (privateKey wallet) hash @ [SigHashAll],
                                   PubKey_SerializeCompressed w (privateKey wallet)])
                          \<and> SignatureScript (TxIn tx' ! i) = []
                      else txscript_SignatureScript w txi i (PkScript (selectedUTXOs ! i))
                             (privateKey wallet) = Inr (SignatureScript (TxIn tx' ! i))
                          \<and> Witness (TxIn tx' ! i) = []))"
    if s: "signTransaction w tx (privateKey wallet) selectedUTXOs = Inr tx'"
       and i: "i < length selectedUTXOs" for tx' i
  proof -
    have l: "length (TxIn tx') = length selectedUTXOs"
      using s sign_loop_frame[of w "privateKey wallet" selectedUTXOs "[0..<length (TxIn tx)]" tx tx'] len
      by (simp add: signTransaction_def)
    note sh = signed_input_shape[OF ins s i]
    then have po: "PreviousOutPoint (TxIn tx' ! i) = OutPoint (selectedUTXOs ! i)" by blast
    have f: "FetchPrevOutput selectedUTXOs (PreviousOutPoint (TxIn tx' ! i))
                  = Some \<lparr>TxOut_Value = Value (selectedUTXOs ! i),
                          TxOut_PkScript = PkScript (selectedUTXOs ! i)\<rparr>"
      if "distinct (map OutPoint selectedUTXOs)"
      unfolding po by (rule FetchPrevOutput_aligned[OF that i])
    show ?thesis using l f sh by blast
  qed
  show ?thesis using len al np ct sg by blast
qed

theorem signer_inputs_aligned_witness:
  "\<exists>tx tx'.
      CreateTransaction_unsigned (tracing_world demo_utxos demo_rate) demo_wallet ''tb1qpayee'' 1600
        = Inr (tx, demo_selection)
    \<and> signTransaction (tracing_world demo_utxos demo_rate) tx (privateKey demo_wallet) demo_selection
        = Inr tx'
    \<and> length (TxIn tx') = 3
    \<and> PreviousOutPoint (TxIn tx' ! 1) = demo_outpoint 0
    \<and> Witness (TxIn tx' ! 1)
        = [0x30 # 0x01 # p2wpkh_script @ [0x01, 0xf4, SigHashAll], 0x02 # replicate 32 0x33]
    \<and> PreviousOutPoint (TxIn tx' ! 2) = demo_outpoint 2
    \<and> SignatureScript (TxIn tx' ! 2) = 0x02 # p2pkh_script
    \<and> Witness (TxIn tx' ! 2) = []"
proof -
  let ?w = "tracing_world demo_utxos demo_rate"
  define tx where "tx = fst (projr (CreateTransaction_unsigned ?w demo_wallet ''tb1qpayee'' 1600))"
  define tx' where "tx' = projr (signTransaction ?w tx (privateKey demo_wallet) demo_selection)"
  have ok: "CreateTransaction_unsigned ?w demo_wallet ''tb1qpayee'' 1600 = Inr (tx, demo_selection)"
    unfolding tx_def by (rule tracing_unsigned)
  have signed: "signTransaction ?w tx (privateKey demo_wallet) demo_selection = Inr tx'"
    unfolding tx'_def tx_def by (rule tracing_signed)
  have i1: "1 < length demo_selection" and i2: "2 < length demo_selection"
    by (simp_all add: demo_selection_def)
  have seg: "IsSegwitScript (PkScript (demo_selection ! 1))"
    by (simp add: demo_selection_def demo_utxo_def p2wpkh_script_def IsSegwitScript_def)
  have leg: "\<not> IsSegwitScript (PkScript (demo_selection ! 2))"
    by (simp add: demo_selection_def demo_utxo_def p2pkh_script_def IsSegwitScript_def)
  have hash: "txscript_CalcWitnessSigHash ?w (PkScript (demo_selection ! 1)) hs t 1
                (Value (demo_selection ! 1)) = Inr (0x01 # p2wpkh_script @ [0x01, 0xf4])" for hs t
    by (simp add: tracing_world_def demo_selection_def demo_utxo_def)
  have sig: "ecdsa_Sign_Serialize ?w k h = 0x30 # h" for k h
    by (simp add: tracing_world_def)
  have pk: "PubKey_SerializeCompressed ?w k = 0x02 # replicate 32 0x33" for k
    by (simp add: tracing_world_def demo_world_def)
  have scr: "txscript_SignatureScript ?w t 2 (PkScript (demo_selection ! 2)) k
               = Inr (0x02 # p2pkh_script)" for t k
    by (simp add: tracing_world_def demo_selection_def demo_utxo_def)
  note th = signer_inputs_aligned[OF ok]
  from th signed i1 obtain txi where a:
    "length (TxIn tx') = length demo_selection"
    "PreviousOutPoint (TxIn tx' ! 1) = OutPoint (demo_selection ! 1)"
    "if IsSegwitScript (PkScript (demo_selection ! 1))
     then (\<exists>hash.
             txscript_CalcWitnessSigHash ?w (PkScript (demo_selection ! 1))
               (txscript_NewTxSigHashes ?w txi (FetchPrevOutput demo_selection)) txi 1
               (Value (demo_selection ! 1)) = Inr hash
           \<and> Witness (TxIn tx' ! 1)
               = [ecdsa_Sign_Serialize ?w (privateKey demo_wallet) hash @ [SigHashAll],
                  PubKey_SerializeCompressed ?w (privateKey demo_wallet)])
         \<and> SignatureScript (TxIn tx' ! 1) = []
     else txscript_SignatureScript ?w txi 1 (PkScript (demo_selection ! 1))
            (privateKey demo_wallet) = Inr (SignatureScript (TxIn tx' ! 1))
         \<and> Witness (TxIn tx' ! 1) = []"
    by blast
  from a(3) obtain h where h:
    "txscript_CalcWitnessSigHash ?w (PkScript (demo_selection ! 1))
               (txscript_NewTxSigHashes ?w txi (FetchPrevOutput demo_selection)) txi 1
               (Value (demo_selection ! 1)) = Inr h"
    "Witness (TxIn tx' ! 1)
               = [ecdsa_Sign_Serialize ?w (privateKey demo_wallet) h @ [SigHashAll],
                  PubKey_SerializeCompressed ?w (privateKey demo_wallet)]"
    unfolding if_P[OF seg] by blast
  have hv: "h = 0x01 # p2wpkh_script @ [0x01, 0xf4]" using h(1) unfolding hash by simp
  have A: "length (TxIn tx') = length demo_selection
         \<and> PreviousOutPoint (TxIn tx' ! 1) = OutPoint (demo_selection ! 1)
         \<and> Witness (TxIn tx' ! 1)
            = [0x30 # 0x01 # p2wpkh_script @ [0x01, 0xf4, SigHashAll], 0x02 # replicate 32 0x33]"
    using a(1,2) h(2) unfolding hv sig pk by simp
  from th signed i2 obtain txj where b:
    "PreviousOutPoint (TxIn tx' ! 2) = OutPoint (demo_selection ! 2)"
    "if IsSegwitScript (PkScript (demo_selection ! 2))
     then (\<exists>hash.
             txscript_CalcWitnessSigHash ?w (PkScript (demo_selection ! 2))
               (txscript_NewTxSigHashes ?w txj (FetchPrevOutput demo_selection)) txj 2
               (Value (demo_selection ! 2)) = Inr hash
           \<and> Witness (TxIn tx' ! 2)
               = [ecdsa_Sign_Serialize ?w (privateKey demo_wallet) hash @ [SigHashAll],
                  PubKey_SerializeCompressed ?w (privateKey demo_wallet)])
         \<and> SignatureScript (TxIn tx' ! 2) = []
     else txscript_SignatureScript ?w txj 2 (PkScript (demo_selection ! 2))
            (privateKey demo_wallet) = Inr (SignatureScript (TxIn tx' ! 2))
         \<and> Witness (TxIn tx' ! 2) = []"
    by blast
  from b(2) have c:
    "txscript_SignatureScript ?w txj 2 (PkScript (demo_selection ! 2))
            (privateKey demo_wallet) = Inr (SignatureScript (TxIn tx' ! 2))"
    "Witness (TxIn tx' ! 2) = []"
    unfolding if_not_P[OF leg] by blast+
  have B: "PreviousOutPoint (TxIn tx' ! 2) = OutPoint (demo_selection ! 2)
         \<and> SignatureScript (TxIn tx' ! 2) = 0x02 # p2pkh_script
         \<and> Witness (TxIn tx' ! 2) = []"
    using b(1) c unfolding scr by simp
  have o: "OutPoint (demo_selection ! 1) = demo_outpoint 0" "OutPoint (demo_selection ! 2) = demo_outpoint 2"
    "length demo_selection = 3"
    by (simp_all add: demo_selection_def demo_utxo_def)
  show ?thesis using ok signed A B unfolding o by blast
qed

subsection \<open>C10: a non-empty list gives a non-empty selection\<close>

text \<open>
  C10. The selection is empty only for the empty list. For a non-empty list its first
  element is a UTXO of the list of the largest value; when the target is zero or negative
  and no value is negative, the selection is that one UTXO.
\<close>

theorem select_nonempty_for_nonempty:
  assumes srt: "sort_Slice_contract srt"
  shows "(fst (select_sorted srt utxos T) = [] \<longleftrightarrow> utxos = [])
       \<and> (utxos \<noteq> [] \<longrightarrow>
            hd (fst (select_sorted srt utxos T)) \<in> set utxos
          \<and> (\<forall>u\<in>set utxos. Value u \<le>s Value (hd (fst (select_sorted srt utxos T)))))
       \<and> (utxos \<noteq> [] \<and> T \<le>s 0 \<and> (\<forall>u\<in>set utxos. 0 \<le>s Value u) \<longrightarrow>
            (\<exists>u. select_sorted srt utxos T = ([u], Value u)))"
proof -
  define ys where "ys = srt by_value_desc utxos"
  have ms: "mset ys = mset utxos" unfolding ys_def by (rule contract_by_value(1)[OF srt])
  have sets: "set ys = set utxos" using ms by (metis set_mset_mset)
  have sorted: "sorted_wrt (\<lambda>a b. Value b \<le>s Value a) ys"
    unfolding ys_def by (rule contract_by_value(2)[OF srt])
  have nil: "ys = [] \<longleftrightarrow> utxos = []" using ms by (metis mset_zero_iff)
  have sel: "select_sorted srt utxos T = select_loop ys T [] 0"
    by (simp add: select_sorted_def ys_def)
  have A: "fst (select_sorted srt utxos T) = [] \<longleftrightarrow> utxos = []"
  proof (cases "ys = []")
    case True
    then have "fst (select_sorted srt utxos T) = []" unfolding sel by simp
    then show ?thesis using nil True by blast
  next
    case False
    from select_loop_hd[OF False, of T] show ?thesis using False nil
      by (auto simp: sel)
  qed
  have B: "hd (fst (select_sorted srt utxos T)) \<in> set utxos
          \<and> (\<forall>u\<in>set utxos. Value u \<le>s Value (hd (fst (select_sorted srt utxos T))))"
    if "utxos \<noteq> []"
  proof -
    from that nil obtain y ys' where y: "ys = y # ys'" by (cases ys) auto
    from select_loop_hd[of ys T] y have "hd (fst (select_sorted srt utxos T)) = y"
      by (auto simp: sel)
    moreover have "\<forall>u\<in>set ys. Value u \<le>s Value y" using sorted y by auto
    moreover have "y \<in> set ys" using y by simp
    ultimately show ?thesis using sets by simp
  qed
  have C: "\<exists>u. select_sorted srt utxos T = ([u], Value u)"
    if "utxos \<noteq> []" "T \<le>s 0" "\<forall>u\<in>set utxos. 0 \<le>s Value u"
  proof -
    from that nil obtain y ys' where y: "ys = y # ys'" by (cases ys) auto
    then have "0 \<le>s Value y" using that(3) sets by auto
    with that(2) have "T \<le>s Value (hd ys)" using y by (simp add: word_sle_eq)
    with select_loop_hd[of ys T] y show ?thesis
      by (auto simp: sel)
  qed
  show ?thesis using A B C by blast
qed

theorem select_nonempty_for_nonempty_witness:
  "demo_utxos \<noteq> []
   \<and> fst (select_sorted insertionSort demo_utxos 0) \<noteq> []
   \<and> (\<exists>u. select_sorted insertionSort demo_utxos 0 = ([u], Value u))"
proof -
  have ne: "demo_utxos \<noteq> []" by (simp add: demo_utxos_def)
  have z: "(0::int64) \<le>s 0" by simp
  from select_nonempty_for_nonempty[OF insertionSort_contract, of demo_utxos 0]
  show ?thesis using ne z demo_nonneg by blast
qed

end
